theory Spec2Isabelle
  imports Main "HOL-Library.Multiset" "HOL-Library.AList"
begin

section \<open>Decorations (view/src/decoration.ts)\<close>

text \<open>
  Positions, lengths, sizes and biases are JavaScript numbers that hold integers; they are
  modelled as unbounded \<open>int\<close>. Optional properties of a spec object are \<open>option\<close>s
  (\<open>None\<close> is an absent property). An attribute object is an association list in the
  order \<open>for (name in attributes)\<close> visits it; a value may be \<open>null\<close> at run time,
  which is \<open>None\<close>.
\<close>

type_synonym attrs = "(string \<times> string option) list"

datatype DecorationRangeSpec = DecorationRangeSpec
  (inclusiveStart: "bool option")
  (inclusiveEnd: "bool option")
  (attributes: "attrs option")
  (lineAttributes: "attrs option")
  (tagName: "string option")
  (collapsed: "bool option")

datatype DecorationPointSpec = DecorationPointSpec
  (side: "int option")
  (pointLineAttributes: "attrs option")

datatype DecorationSpec = RangeSpec DecorationRangeSpec | PointSpec DecorationPointSpec

text \<open>
  The two subclasses of \<open>DecorationDesc\<close>. The fields \<open>bias\<close>, \<open>endBias\<close> and
  \<open>affectsSpans\<close> are computed from the spec by the constructors and never written
  again, so they are functions of the descriptor.
\<close>

datatype DecorationDesc = RangeDesc DecorationRangeSpec | PointDesc DecorationPointSpec

definition BIG_BIAS :: int where
  "BIG_BIAS = 2000000000"

fun spec :: "DecorationDesc \<Rightarrow> DecorationSpec" where
  "spec (RangeDesc s) = RangeSpec s"
| "spec (PointDesc s) = PointSpec s"

fun bias :: "DecorationDesc \<Rightarrow> int" where
  "bias (RangeDesc s) = (if inclusiveStart s = Some True then - BIG_BIAS else BIG_BIAS)"
| "bias (PointDesc s) = (case side s of None \<Rightarrow> 0 | Some n \<Rightarrow> n)"

definition endBias :: "DecorationRangeSpec \<Rightarrow> int" where
  "endBias s = (if inclusiveEnd s = Some True then BIG_BIAS else - BIG_BIAS)"

text \<open>
  \<open>!!(spec.attributes || spec.tagName || spec.collapsed)\<close>: an object is truthy even
  when it has no property, a string when it is not empty.
\<close>

definition affectsSpans :: "DecorationRangeSpec \<Rightarrow> bool" where
  "affectsSpans s =
     (attributes s \<noteq> None
      \<or> (case tagName s of None \<Rightarrow> False | Some t \<Rightarrow> t \<noteq> [])
      \<or> collapsed s = Some True)"

datatype Decoration = Decoration (dfrom: int) (dto: int) (desc: DecorationDesc)

definition dspec :: "Decoration \<Rightarrow> DecorationSpec" where
  "dspec d = spec (desc d)"

text \<open>
  \<open>Change\<close> lives in the state module, outside this source tree. The decoration code
  reads its \<open>from\<close>, \<open>to\<close>, the length of its \<open>text\<close> and calls its method
  \<open>mapPos(pos, assoc)\<close>; the method is carried as a function.
\<close>

datatype Change = Change (cfrom: int) (cto: int) (textLength: int)
  (changeMapPos: "int \<Rightarrow> int \<Rightarrow> int")

fun mapPos :: "int \<Rightarrow> Change list \<Rightarrow> int \<Rightarrow> int" where
  "mapPos pos [] assoc = pos"
| "mapPos pos (c # changes) assoc = mapPos (changeMapPos c pos assoc) changes assoc"

text \<open>\<open>Decoration.map\<close> dispatches to \<open>RangeDesc.map\<close> or \<open>PointDesc.map\<close>;
  \<open>None\<close> is \<open>null\<close>.\<close>

fun map_deco :: "Decoration \<Rightarrow> Change list \<Rightarrow> Decoration option" where
  "map_deco (Decoration f t (RangeDesc s)) changes =
     (let from' = mapPos f changes (bias (RangeDesc s));
          to' = mapPos t changes (endBias s)
      in if from' < to' then Some (Decoration from' to' (RangeDesc s)) else None)"
| "map_deco (Decoration f t (PointDesc s)) changes =
     (let pos = mapPos f changes (bias (PointDesc s))
      in Some (Decoration pos pos (PointDesc s)))"

definition move :: "Decoration \<Rightarrow> int \<Rightarrow> Decoration" where
  "move d offset =
     (if offset \<noteq> 0 then Decoration (dfrom d + offset) (dto d + offset) (desc d) else d)"

datatype error = RangeError | TypeError

definition range_deco :: "int \<Rightarrow> int \<Rightarrow> DecorationRangeSpec \<Rightarrow> error + Decoration" where
  "range_deco from to s =
     (if from \<ge> to then Inl RangeError else Inr (Decoration from to (RangeDesc s)))"

definition point_deco :: "int \<Rightarrow> DecorationPointSpec \<Rightarrow> Decoration" where
  "point_deco pos s = Decoration pos pos (PointDesc s)"

definition is_range :: "Decoration \<Rightarrow> bool" where
  "is_range d = (case desc d of RangeDesc _ \<Rightarrow> True | PointDesc _ \<Rightarrow> False)"

section \<open>The heap of the span builder\<close>

text \<open>
  A \<open>LocalSet\<close> is a cursor into the \<open>local\<close> array of one node. Its \<open>next\<close> field
  is either \<open>null\<close> or the iterator that produced it; iterators are mutable objects, so
  the field holds the iterator's address in a store of iterators.

  The other kind of heap item is an active \<open>Decoration\<close>. The span builder puts the
  same object on the heap and in its \<open>active\<close> array and later looks for the object
  with \<open>indexOf\<close>, which compares references, so two decorations with the same fields
  are still two objects. A decoration on the heap therefore carries, next to its fields,
  a number that stands for the object.
\<close>

datatype LocalSet = LocalSet (ls_offset: int) (ls_decorations: "Decoration list")
  (ls_next: "nat option") (ls_index: nat)

datatype Heapable = HLocalSet LocalSet | HDecoration nat Decoration

text \<open>
  The getters \<open>heapPos\<close> and \<open>desc\<close>. Those of a \<open>LocalSet\<close> read
  \<open>decorations[index]\<close>; past the end of the array that is \<open>undefined\<close>, and
  reading a property of it throws a TypeError.
\<close>

fun heapPos :: "Heapable \<Rightarrow> error + int" where
  "heapPos (HDecoration obj d) = Inr (dto d)"
| "heapPos (HLocalSet l) =
     (if ls_index l < length (ls_decorations l)
      then Inr (dfrom (ls_decorations l ! ls_index l) + ls_offset l)
      else Inl TypeError)"

fun heapDesc :: "Heapable \<Rightarrow> error + DecorationDesc" where
  "heapDesc (HDecoration obj d) = Inr (desc d)"
| "heapDesc (HLocalSet l) =
     (if ls_index l < length (ls_decorations l)
      then Inr (desc (ls_decorations l ! ls_index l))
      else Inl TypeError)"

text \<open>\<open>a.heapPos - b.heapPos || a.desc.bias - b.desc.bias\<close>\<close>

definition compareHeapable :: "Heapable \<Rightarrow> Heapable \<Rightarrow> error + int" where
  "compareHeapable a b =
     (case heapPos a of Inl e \<Rightarrow> Inl e | Inr pa \<Rightarrow>
      case heapPos b of Inl e \<Rightarrow> Inl e | Inr pb \<Rightarrow>
      if pa - pb \<noteq> 0 then Inr (pa - pb)
      else case heapDesc a of Inl e \<Rightarrow> Inl e | Inr da \<Rightarrow>
           case heapDesc b of Inl e \<Rightarrow> Inl e | Inr db \<Rightarrow> Inr (bias da - bias db))"

text \<open>
  The \<open>while (index > 0)\<close> loop of \<open>addToHeap\<close>. Array indices are \<open>nat\<close>;
  \<open>index >> 1\<close> is \<open>index div 2\<close> on them (an array has fewer than \<open>2^31\<close> elements
  here). \<open>heap[parentIndex]\<close> past the end is \<open>undefined\<close>, on which the comparison
  throws.
\<close>

function siftUp :: "Heapable list \<Rightarrow> Heapable \<Rightarrow> nat \<Rightarrow> error + Heapable list" where
  "siftUp heap elt index =
     (if index > 0 then
        (let parentIndex = index div 2 in
         if parentIndex < length heap then
           (let parent = heap ! parentIndex in
            case compareHeapable elt parent of
              Inl e \<Rightarrow> Inl e
            | Inr c \<Rightarrow>
                if c \<ge> 0 then Inr heap
                else siftUp (heap[index := parent, parentIndex := elt]) elt parentIndex)
         else Inl TypeError)
      else Inr heap)"
  by pat_completeness auto
termination
  by (relation "measure (\<lambda>(heap, elt, index). index)") auto

declare siftUp.simps [simp del]

definition addToHeap :: "Heapable list \<Rightarrow> Heapable \<Rightarrow> error + Heapable list" where
  "addToHeap heap elt = siftUp (heap @ [elt]) elt (length heap)"

text \<open>
  The \<open>for (let index = 0;;)\<close> loop of \<open>takeFromHeap\<close>. \<open>(index << 1) + 1\<close> is
  \<open>2 * index + 1\<close>. \<open>pick_child\<close> is the \<open>if\<close> that moves \<open>childIndex\<close> to the
  right sibling when the left one does not compare below it.
\<close>

definition pick_child :: "Heapable list \<Rightarrow> nat \<Rightarrow> error + nat" where
  "pick_child heap childIndex =
     (if childIndex + 1 < length heap then
        (case compareHeapable (heap ! childIndex) (heap ! (childIndex + 1)) of
           Inl e \<Rightarrow> Inl e
         | Inr c \<Rightarrow> Inr (if c \<ge> 0 then childIndex + 1 else childIndex))
      else Inr childIndex)"

lemma pick_child_bounds:
  "pick_child heap childIndex = Inr ci \<Longrightarrow> childIndex < length heap \<Longrightarrow>
     childIndex \<le> ci \<and> ci < length heap"
  by (auto simp: pick_child_def split: if_splits sum.splits)

function siftDown :: "Heapable list \<Rightarrow> Heapable \<Rightarrow> nat \<Rightarrow> error + Heapable list" where
  "siftDown heap replacement index =
     (if 2 * index + 1 \<ge> length heap then Inr heap
      else
        case pick_child heap (2 * index + 1) of
          Inl e \<Rightarrow> Inl e
        | Inr childIndex \<Rightarrow>
            (case compareHeapable replacement (heap ! childIndex) of
               Inl e \<Rightarrow> Inl e
             | Inr c \<Rightarrow>
                 if c < 0 then Inr heap
                 else siftDown (heap[childIndex := replacement, index := heap ! childIndex])
                        replacement childIndex))"
  by pat_completeness auto
termination
proof (relation "measure (\<lambda>(heap, replacement, index). length heap - index)", goal_cases)
  case 1
  show ?case by simp
next
  case (2 heap replacement index childIndex c)
  from pick_child_bounds[OF 2(2)] 2(1) show ?case by auto
qed

declare siftDown.simps [simp del]

text \<open>
  \<open>takeFromHeap\<close> returns the old \<open>heap[0]\<close> and leaves the array changed. On an
  empty array \<open>heap[0]\<close> and \<open>heap.pop()\<close> are \<open>undefined\<close> and that is what it
  returns (\<open>None\<close>).
\<close>

definition takeFromHeap :: "Heapable list \<Rightarrow> error + (Heapable option \<times> Heapable list)" where
  "takeFromHeap heap =
     (case heap of
        [] \<Rightarrow> Inr (None, [])
      | elt # _ \<Rightarrow>
          (let replacement = last heap; heap' = butlast heap in
           if length heap' = 0 then Inr (Some elt, heap')
           else case siftDown (heap'[0 := replacement]) replacement 0 of
                  Inl e \<Rightarrow> Inl e
                | Inr heap'' \<Rightarrow> Inr (Some elt, heap'')))"

text \<open>A sequence of \<open>addToHeap\<close> calls, and a sequence of \<open>takeFromHeap\<close> calls
  that collects what they return.\<close>

fun addAllToHeap :: "Heapable list \<Rightarrow> Heapable list \<Rightarrow> error + Heapable list" where
  "addAllToHeap heap [] = Inr heap"
| "addAllToHeap heap (elt # elts) =
     (case addToHeap heap elt of Inl e \<Rightarrow> Inl e | Inr heap' \<Rightarrow> addAllToHeap heap' elts)"

fun takeManyFromHeap :: "nat \<Rightarrow> Heapable list \<Rightarrow> error + (Heapable option list \<times> Heapable list)" where
  "takeManyFromHeap 0 heap = Inr ([], heap)"
| "takeManyFromHeap (Suc n) heap =
     (case takeFromHeap heap of
        Inl e \<Rightarrow> Inl e
      | Inr (elt, heap') \<Rightarrow>
          (case takeManyFromHeap n heap' of
             Inl e \<Rightarrow> Inl e
           | Inr (elts, heap'') \<Rightarrow> Inr (elt # elts, heap'')))"

text \<open>An active decoration that ends at \<open>n\<close>: a heap item with \<open>heapPos = n\<close>. The
  heap does not read the number of the object; decorations with different ends are
  different objects.\<close>

definition ending_at :: "int \<Rightarrow> Heapable" where
  "ending_at n = HDecoration (nat n) (Decoration 0 n (PointDesc (DecorationPointSpec None None)))"

section \<open>Decoration sets and their iterator\<close>

text \<open>
  The \<open>local\<close> field of a set refers to an array. Arrays that a set owns are never
  written after the set is built, so they are values. The one exception is the module's
  constant \<open>noDecorations\<close>: \<open>DecorationSet.empty\<close> and every wrapper node built by
  \<open>rebalanceChildren\<close> refer to this one array, and \<open>rebalanceChildren\<close> can write to
  it. So a \<open>local\<close> field is either a reference to \<open>noDecorations\<close>, whose current
  contents every function takes as its first argument \<open>nd\<close>, or an array of its own.
\<close>

datatype DecorationArray = NoDecorations | Arr "Decoration list"

fun the_array :: "Decoration list \<Rightarrow> DecorationArray \<Rightarrow> Decoration list" where
  "the_array nd NoDecorations = nd"
| "the_array nd (Arr ds) = ds"

datatype DecorationSet = DecorationSet (set_length: int) (set_size: int)
  (local: DecorationArray) (children: "DecorationSet list")

definition empty :: DecorationSet where
  "empty = DecorationSet 0 0 NoDecorations []"

definition grow :: "DecorationSet \<Rightarrow> int \<Rightarrow> DecorationSet" where
  "grow s len = DecorationSet (set_length s + len) (set_size s) (local s) (children s)"

text \<open>
  \<open>collect(target, offset)\<close> pushes onto \<open>target\<close>; the model returns what is pushed.
\<close>

fun collect :: "Decoration list \<Rightarrow> DecorationSet \<Rightarrow> int \<Rightarrow> Decoration list"
  and collect_children :: "Decoration list \<Rightarrow> DecorationSet list \<Rightarrow> int \<Rightarrow> Decoration list" where
  "collect nd (DecorationSet len sz loc chs) offset =
     map (\<lambda>d. move d offset) (the_array nd loc) @ collect_children nd chs offset"
| "collect_children nd [] offset = []"
| "collect_children nd (child # chs) offset =
     collect nd child offset @ collect_children nd chs (offset + set_length child)"

text \<open>
  A stack element of \<open>DecorationSetIterator\<close>; the stack is a list with its top first.
\<close>

datatype IteratedSet = IteratedSet (it_offset: int) (it_set: DecorationSet) (it_index: int)

text \<open>
  What \<open>next\<close> still has to do on a stack: a bound used for its termination and for
  that of the loops that call it. A node counts two for each local decoration, as the
  cursor over them is visited once per decoration by the span builder.
\<close>

fun set_weight :: "Decoration list \<Rightarrow> DecorationSet \<Rightarrow> nat" where
  "set_weight nd (DecorationSet len sz loc chs) =
     2 * length (the_array nd loc) + 2 + sum_list (map (\<lambda>c. set_weight nd c + 1) chs)"

definition entry_weight :: "Decoration list \<Rightarrow> IteratedSet \<Rightarrow> nat" where
  "entry_weight nd e =
     (if it_index e < 0 then 2 * length (the_array nd (local (it_set e))) + 1 else 0) + 1
     + sum_list (map (\<lambda>c. set_weight nd c + 1) (drop (nat (it_index e)) (children (it_set e))))"

definition stack_weight :: "Decoration list \<Rightarrow> IteratedSet list \<Rightarrow> nat" where
  "stack_weight nd stack = sum_list (map (entry_weight nd) stack)"

text \<open>
  \<open>DecorationSetIterator.next(skip)\<close>, for the iterator at address \<open>self\<close>. It returns
  the cursor (or \<open>null\<close>) and leaves the stack changed. \<open>top.set.children[top.index]\<close>
  past the end is \<open>undefined\<close>, whose \<open>length\<close> cannot be read.
\<close>

function iter_next :: "Decoration list \<Rightarrow> nat \<Rightarrow> int \<Rightarrow> IteratedSet list
    \<Rightarrow> error + (LocalSet option \<times> IteratedSet list)" where
  "iter_next nd self skip [] = Inr (None, [])"
| "iter_next nd self skip (tp # rest) =
     (if it_index tp < 0 \<and> length (the_array nd (local (it_set tp))) > 0 then
        Inr (Some (LocalSet (it_offset tp) (the_array nd (local (it_set tp)))
                     (if children (it_set tp) \<noteq> [] then None else Some self) 0),
             IteratedSet (it_offset tp) (it_set tp) 0 # rest)
      else
        (let index = (if it_index tp < 0 then 0 else it_index tp) in
         if index = int (length (children (it_set tp))) then iter_next nd self skip rest
         else if index < int (length (children (it_set tp))) then
           (let next = children (it_set tp) ! nat index;
                start = it_offset tp;
                tp' = IteratedSet (it_offset tp + set_length next) (it_set tp) (index + 1)
            in if skip > set_length next
               then iter_next nd self (skip - set_length next) (tp' # rest)
               else iter_next nd self skip (IteratedSet start next (- 1) # tp' # rest))
         else Inl TypeError))"
  by pat_completeness auto

lemma set_weight_eq:
  "set_weight nd s = 2 * length (the_array nd (local s)) + 2
     + sum_list (map (\<lambda>c. set_weight nd c + 1) (children s))"
  by (cases s) simp

lemma sum_drop_step:
  "i < length cs \<Longrightarrow> sum_list (map f (drop i cs)) = f (cs ! i) + sum_list (map f (drop (Suc i) cs))"
  by (simp add: Cons_nth_drop_Suc[symmetric])

lemma entry_weight_skip:
  assumes "index = (if it_index tp < 0 then 0 else it_index tp)"
    and "index < int (length (children (it_set tp)))"
    and "it_index tp < 0 \<longrightarrow> the_array nd (local (it_set tp)) = []"
  shows "entry_weight nd (IteratedSet off (it_set tp) (index + 1))
           + set_weight nd (children (it_set tp) ! nat index) + 1 \<le> entry_weight nd tp"
proof -
  have i0: "0 \<le> index" using assms(1) by (simp split: if_splits)
  have n: "nat index < length (children (it_set tp))" using assms(2) i0 by linarith
  have d: "nat (it_index tp) = nat index"
    using assms(1) by (simp split: if_splits)
  have e: "nat (index + 1) = Suc (nat index)" using i0 by linarith
  have "entry_weight nd (IteratedSet off (it_set tp) (index + 1))
          = 1 + sum_list (map (\<lambda>c. set_weight nd c + 1)
                  (drop (Suc (nat index)) (children (it_set tp))))"
    using i0 by (simp add: entry_weight_def e)
  moreover have "entry_weight nd tp
          \<ge> 1 + sum_list (map (\<lambda>c. set_weight nd c + 1) (drop (nat index) (children (it_set tp))))"
    by (simp add: entry_weight_def d)
  ultimately show ?thesis
    using sum_drop_step[OF n, of "\<lambda>c. set_weight nd c + 1"] by simp
qed

lemma fresh_entry_weight: "entry_weight nd (IteratedSet off s (- 1)) = set_weight nd s"
  by (simp add: entry_weight_def set_weight_eq[of nd s])

termination iter_next
proof (relation "measure (\<lambda>(nd, self, skip, stack). stack_weight nd stack)", goal_cases)
  case 1
  show ?case by simp
next
  case (2 nd self skip tp rest index)
  then show ?case by (simp add: stack_weight_def entry_weight_def)
next
  case (3 nd self skip tp rest index nxt start tp')
  from 3(1,2,3,4)
  have "entry_weight nd (IteratedSet (it_offset tp + set_length nxt) (it_set tp) (index + 1))
          + set_weight nd (children (it_set tp) ! nat index) + 1 \<le> entry_weight nd tp"
    by (intro entry_weight_skip) (auto split: if_splits)
  with 3 show ?case by (simp add: stack_weight_def)
next
  case (4 nd self skip tp rest index nxt start tp')
  from 4(1,2,3,4)
  have "entry_weight nd (IteratedSet (it_offset tp + set_length nxt) (it_set tp) (index + 1))
          + set_weight nd (children (it_set tp) ! nat index) + 1 \<le> entry_weight nd tp"
    by (intro entry_weight_skip) (auto split: if_splits)
  with 4 show ?case by (simp add: stack_weight_def fresh_entry_weight)
qed

declare iter_next.simps(2) [simp del]

section \<open>The span builder\<close>

datatype DecoratedRange = DecoratedRange (dr_from: int) (dr_to: int)
  (dr_tagName: "string option") (dr_attrs: "(string \<times> string) list option")

text \<open>
  \<open>DecoratedRange.build\<close>. The result's \<open>attrs\<close> object is an association list in
  insertion order; \<open>attrs.style\<close> and \<open>attrs.class\<close> are truthy when present and not
  empty.
\<close>

definition truthy :: "string option \<Rightarrow> bool" where
  "truthy v = (case v of None \<Rightarrow> False | Some x \<Rightarrow> x \<noteq> [])"

fun build_attr :: "(string \<times> string) list option \<Rightarrow> string \<times> string option
    \<Rightarrow> (string \<times> string) list option" where
  "build_attr attrs (name, None) = attrs"
| "build_attr attrs (name, Some v) =
     (let attrs' = (case attrs of None \<Rightarrow> [] | Some a \<Rightarrow> a);
          v' = (if name = ''style'' \<and> truthy (map_of attrs' ''style'')
                then the (map_of attrs' ''style'') @ '';'' @ v
                else if name = ''class'' \<and> truthy (map_of attrs' ''class'')
                then the (map_of attrs' ''class'') @ '' '' @ v
                else v)
      in Some (AList.update name v' attrs'))"

fun build_range :: "string option \<times> (string \<times> string) list option \<Rightarrow> Decoration
    \<Rightarrow> string option \<times> (string \<times> string) list option" where
  "build_range (tag, attrs) deco =
     (case desc deco of
        PointDesc _ \<Rightarrow> (tag, attrs)
      | RangeDesc s \<Rightarrow>
          (if truthy (tagName s) then tagName s else tag,
           case attributes s of None \<Rightarrow> attrs | Some as \<Rightarrow> foldl build_attr attrs as))"

definition build :: "int \<Rightarrow> int \<Rightarrow> Decoration list \<Rightarrow> DecoratedRange" where
  "build from to ranges =
     (case foldl build_range (None, None) ranges of
        (tag, attrs) \<Rightarrow> DecoratedRange from to tag attrs)"

text \<open>
  \<open>addIterToHeap(heap, iter, skip)\<close>, for the iterator at address \<open>k\<close> of the store
  \<open>iters\<close>. It changes the heap and the iterator.
\<close>

function addIterToHeap :: "Decoration list \<Rightarrow> Heapable list \<Rightarrow> IteratedSet list list \<Rightarrow> nat
    \<Rightarrow> int \<Rightarrow> error + (Heapable list \<times> IteratedSet list list)" where
  "addIterToHeap nd heap iters k skip =
     (if k < length iters then
        (case iter_next nd k skip (iters ! k) of
           Inl e \<Rightarrow> Inl e
         | Inr (None, stack') \<Rightarrow> Inr (heap, iters[k := stack'])
         | Inr (Some next, stack') \<Rightarrow>
             (case addToHeap heap (HLocalSet next) of
                Inl e \<Rightarrow> Inl e
              | Inr heap' \<Rightarrow>
                  if ls_next next \<noteq> None then Inr (heap', iters[k := stack'])
                  else addIterToHeap nd heap' (iters[k := stack']) k skip))
      else Inl TypeError)"
  by pat_completeness auto

lemma iter_next_weight:
  "iter_next nd self skip stack = Inr (r, stack') \<Longrightarrow>
     (case r of None \<Rightarrow> stack_weight nd stack' \<le> stack_weight nd stack
      | Some l \<Rightarrow> ls_index l = 0 \<and> ls_decorations l \<noteq> [] \<and> (ls_next l = None \<or> ls_next l = Some self)
           \<and> stack_weight nd stack' + 2 * length (ls_decorations l) < stack_weight nd stack)"
proof (induction nd self skip stack rule: iter_next.induct)
  case (1 nd self skip)
  then show ?case by simp
next
  case (2 nd self skip tp rest)
  show ?case
  proof (cases "it_index tp < 0 \<and> length (the_array nd (local (it_set tp))) > 0")
    case True
    with 2(4) show ?thesis
      by (auto simp: iter_next.simps(2)[of nd self skip tp rest] stack_weight_def entry_weight_def)
  next
    case False
    define index where "index = (if it_index tp < 0 then 0 else it_index tp)"
    consider (pop) "index = int (length (children (it_set tp)))"
      | (desc) "index < int (length (children (it_set tp)))"
      | (err) "index > int (length (children (it_set tp)))" by linarith
    then show ?thesis
    proof cases
      case pop
      with False 2(4) index_def have "iter_next nd self skip rest = Inr (r, stack')"
        by (simp add: iter_next.simps(2)[of nd self skip tp rest] Let_def split: if_splits)
      from 2(1)[OF False index_def pop this] show ?thesis
        by (auto simp: stack_weight_def split: option.splits)
    next
      case desc
      define nxt where "nxt = children (it_set tp) ! nat index"
      define tp' where "tp' = IteratedSet (it_offset tp + set_length nxt) (it_set tp) (index + 1)"
      have ne: "index \<noteq> int (length (children (it_set tp)))" using desc by simp
      have w: "entry_weight nd tp' + set_weight nd nxt + 1 \<le> entry_weight nd tp"
        unfolding tp'_def nxt_def using False
        by (intro entry_weight_skip[OF index_def desc]) auto
      show ?thesis
      proof (cases "skip > set_length nxt")
        case True
        with False 2(4) index_def desc nxt_def tp'_def
        have "iter_next nd self (skip - set_length nxt) (tp' # rest) = Inr (r, stack')"
          by (simp add: iter_next.simps(2)[of nd self skip tp rest] Let_def split: if_splits)
        from 2(2)[OF False index_def ne desc nxt_def refl tp'_def True this] w
        show ?thesis by (auto simp: stack_weight_def split: option.splits)
      next
        case F: False
        with False 2(4) index_def desc nxt_def tp'_def
        have "iter_next nd self skip (IteratedSet (it_offset tp) nxt (- 1) # tp' # rest) = Inr (r, stack')"
          by (simp add: iter_next.simps(2)[of nd self skip tp rest] Let_def split: if_splits)
        from 2(3)[OF False index_def ne desc nxt_def refl tp'_def F this] w
        show ?thesis by (auto simp: stack_weight_def fresh_entry_weight split: option.splits)
      qed
    next
      case err
      with False 2(4) index_def show ?thesis by (simp add: iter_next.simps(2)[of nd self skip tp rest] Let_def split: if_splits)
    qed
  qed
qed

termination addIterToHeap
proof (relation "measure (\<lambda>(nd, heap, iters, k, skip). stack_weight nd (iters ! k))", goal_cases)
  case 1
  show ?case by simp
next
  case (2 nd heap iters k skip x2 x1 x2a x2b x2c)
  from iter_next_weight[of nd k skip "iters ! k" x1 x2a] 2 show ?case
    by auto
qed

declare addIterToHeap.simps [simp del]

text \<open>
  The state of the loop of \<open>decoratedSpansInRange\<close>: the heap, the iterators (one per
  set with \<open>size > 0\<close>, at the address of its creation order), \<open>result\<close>, \<open>active\<close>
  and \<open>pos\<close>. An element of \<open>active\<close> is an object: its number and its fields.
  \<open>sp_made\<close> counts the decorations made active so far and numbers the next one.
  A decoration becomes active once for each array slot a cursor stands on, and the model
  takes each of them to be an object of its own, whether \<open>move\<close> copied the stored
  decoration or, at offset \<open>0\<close>, returned it.
\<close>

datatype SpanState = SpanState (sp_heap: "Heapable list") (sp_iters: "IteratedSet list list")
  (sp_result: "DecoratedRange list") (sp_active: "(nat \<times> Decoration) list") (sp_pos: int)
  (sp_made: nat)

text \<open>
  \<open>active.splice(active.indexOf(deco), 1)\<close>. \<open>indexOf\<close> gives the first index that
  holds the object itself, whatever the fields of the elements before it. When it gives
  \<open>-1\<close>, \<open>splice(-1, 1)\<close> removes the last element.
\<close>

fun indexOf :: "(nat \<times> Decoration) list \<Rightarrow> nat \<Rightarrow> nat option" where
  "indexOf [] obj = None"
| "indexOf (a # active) obj =
     (if fst a = obj then Some 0
      else case indexOf active obj of None \<Rightarrow> None | Some i \<Rightarrow> Some (i + 1))"

definition remove_active :: "(nat \<times> Decoration) list \<Rightarrow> nat \<Rightarrow> (nat \<times> Decoration) list" where
  "remove_active active obj =
     (case indexOf active obj of
        Some i \<Rightarrow> take i active @ drop (i + 1) active
      | None \<Rightarrow> butlast active)"

text \<open>\<open>if (x > pos) { result.push(DecoratedRange.build(pos, x, active)); pos = x }\<close>\<close>

definition emit_upto :: "SpanState \<Rightarrow> int \<Rightarrow> DecoratedRange list \<times> int" where
  "emit_upto st x =
     (if x > sp_pos st then (sp_result st @ [build (sp_pos st) x (map snd (sp_active st))], x)
      else (sp_result st, sp_pos st))"

text \<open>
  The first statement on a cursor taken from the heap:
  \<open>if (++next.index < next.decorations.length) addToHeap(heap, next)
  else if (next.next) addIterToHeap(heap, next.next)\<close>.
\<close>

definition advance_cursor :: "Decoration list \<Rightarrow> Heapable list \<Rightarrow> IteratedSet list list
    \<Rightarrow> LocalSet \<Rightarrow> error + (Heapable list \<times> IteratedSet list list)" where
  "advance_cursor nd heap iters next =
     (let next' = LocalSet (ls_offset next) (ls_decorations next) (ls_next next)
                    (ls_index next + 1)
      in if ls_index next' < length (ls_decorations next')
         then (case addToHeap heap (HLocalSet next') of
                 Inl e \<Rightarrow> Inl e
               | Inr heap' \<Rightarrow> Inr (heap', iters))
         else (case ls_next next of
                 Some k \<Rightarrow> addIterToHeap nd heap iters k 0
               | None \<Rightarrow> Inr (heap, iters)))"

text \<open>
  The rest of the turn for the decoration \<open>deco\<close> the cursor stood on. The flag of the
  result is \<open>True\<close> when the turn ends in \<open>break\<close>.
\<close>

definition start_deco :: "int \<Rightarrow> int \<Rightarrow> SpanState \<Rightarrow> Decoration \<Rightarrow> int \<Rightarrow> Heapable list
    \<Rightarrow> IteratedSet list list \<Rightarrow> error + (bool \<times> SpanState)" where
  "start_deco from to st deco offset heap iters =
     (let keep = SpanState heap iters (sp_result st) (sp_active st) (sp_pos st) (sp_made st) in
      if dto deco + offset < from then Inr (False, keep)
      else if dfrom deco + offset > to then Inr (True, keep)
      else
        (case desc deco of
           PointDesc _ \<Rightarrow> Inr (False, keep)
         | RangeDesc s \<Rightarrow>
             if \<not> affectsSpans s then Inr (False, keep)
             else
               (let deco' = move deco offset in
                case emit_upto st (dfrom deco') of
                  (result', pos') \<Rightarrow>
                    (case addToHeap heap (HDecoration (sp_made st) deco') of
                       Inl e \<Rightarrow> Inl e
                     | Inr heap' \<Rightarrow>
                         Inr (False, SpanState heap' iters result'
                                       (sp_active st @ [(sp_made st, deco')]) pos'
                                       (sp_made st + 1))))))"

text \<open>The turn for an active decoration taken from the heap, the object \<open>obj\<close> with
  the fields \<open>deco\<close>: it ends here.\<close>

definition end_deco :: "int \<Rightarrow> SpanState \<Rightarrow> nat \<Rightarrow> Decoration \<Rightarrow> Heapable list \<Rightarrow> bool \<times> SpanState" where
  "end_deco to st obj deco heap =
     (if dto deco \<ge> to
      then (True, SpanState heap (sp_iters st) (sp_result st) (sp_active st) (sp_pos st)
                    (sp_made st))
      else
        (case emit_upto st (dto deco) of
           (result', pos') \<Rightarrow>
             (False, SpanState heap (sp_iters st) result'
                       (remove_active (sp_active st) obj) pos' (sp_made st))))"

text \<open>
  One turn of \<open>while (heap.length > 0)\<close>. \<open>next.decorations[next.index]\<close> past the end
  is \<open>undefined\<close>, and the turn reads its \<open>to\<close>.
\<close>

definition span_step :: "Decoration list \<Rightarrow> int \<Rightarrow> int \<Rightarrow> SpanState \<Rightarrow> error + (bool \<times> SpanState)" where
  "span_step nd from to st =
     (case takeFromHeap (sp_heap st) of
        Inl e \<Rightarrow> Inl e
      | Inr (None, heap) \<Rightarrow> Inl TypeError
      | Inr (Some (HLocalSet next), heap) \<Rightarrow>
          if ls_index next < length (ls_decorations next) then
            (case advance_cursor nd heap (sp_iters st) next of
               Inl e \<Rightarrow> Inl e
             | Inr (heap', iters') \<Rightarrow>
                 start_deco from to st (ls_decorations next ! ls_index next) (ls_offset next)
                   heap' iters')
          else Inl TypeError
      | Inr (Some (HDecoration obj deco), heap) \<Rightarrow> Inr (end_deco to st obj deco heap))"

function span_loop :: "Decoration list \<Rightarrow> int \<Rightarrow> int \<Rightarrow> SpanState \<Rightarrow> error + SpanState" where
  "span_loop nd from to st =
     (if length (sp_heap st) > 0 then
        (case span_step nd from to st of
           Inl e \<Rightarrow> Inl e
         | Inr (brk, st') \<Rightarrow> if brk then Inr st' else span_loop nd from to st')
      else Inr st)"
  by pat_completeness auto

subsection \<open>The heap operations keep the items\<close>

lemma siftUp_mset:
  "index < length heap \<Longrightarrow> heap ! index = elt \<Longrightarrow> siftUp heap elt index = Inr h' \<Longrightarrow> mset h' = mset heap"
proof (induction heap elt index rule: siftUp.induct)
  case (1 heap elt index)
  show ?case
  proof (cases "index > 0")
    case False
    with 1(4) show ?thesis by (simp add: siftUp.simps[of heap elt index])
  next
    case True
    define parentIndex where "parentIndex = index div 2"
    have p: "parentIndex < length heap" using 1(2) parentIndex_def by simp
    define parent where "parent = heap ! parentIndex"
    from 1(4) True p obtain c where c: "compareHeapable elt parent = Inr c"
      by (auto simp: siftUp.simps[of heap elt index] Let_def parentIndex_def parent_def split: sum.splits)
    show ?thesis
    proof (cases "c \<ge> 0")
      case T: True
      with 1(4) True p c show ?thesis
        by (simp add: siftUp.simps[of heap elt index] Let_def parentIndex_def parent_def)
    next
      case F: False
      with 1(4) True p c have r: "siftUp (heap[index := parent, parentIndex := elt]) elt parentIndex = Inr h'"
        by (simp add: siftUp.simps[of heap elt index] Let_def parentIndex_def parent_def)
      have "mset h' = mset (heap[index := parent, parentIndex := elt])"
        using 1(1)[OF True parentIndex_def p parent_def c F _ _ r] p by simp
      also have "\<dots> = mset heap"
        using mset_swap[of parentIndex heap index] p 1(2,3) by (simp add: parent_def)
      finally show ?thesis .
    qed
  qed
qed

lemma addToHeap_mset: "addToHeap heap elt = Inr h' \<Longrightarrow> mset h' = add_mset elt (mset heap)"
  using siftUp_mset[of "length heap" "heap @ [elt]" elt h'] by (simp add: addToHeap_def)

lemma siftDown_mset:
  "index < length heap \<Longrightarrow> heap ! index = r \<Longrightarrow> siftDown heap r index = Inr h' \<Longrightarrow> mset h' = mset heap"
proof (induction heap r index rule: siftDown.induct)
  case (1 heap r index)
  show ?case
  proof (cases "2 * index + 1 \<ge> length heap")
    case True
    with 1(4) show ?thesis by (simp add: siftDown.simps[of heap r index])
  next
    case False
    from 1(4) False obtain ci where pc: "pick_child heap (2 * index + 1) = Inr ci"
      by (cases "pick_child heap (2 * index + 1)") (simp_all add: siftDown.simps[of heap r index])
    from pick_child_bounds[OF pc] False have ci: "ci < length heap" "ci \<noteq> index" by auto
    from 1(4) False pc obtain c where c: "compareHeapable r (heap ! ci) = Inr c"
      by (cases "compareHeapable r (heap ! ci)") (simp_all add: siftDown.simps[of heap r index])
    show ?thesis
    proof (cases "c < 0")
      case True
      with 1(4) False pc c show ?thesis
        by (simp add: siftDown.simps[of heap r index])
    next
      case F: False
      with 1(4) False pc c have r: "siftDown (heap[ci := r, index := heap ! ci]) r ci = Inr h'"
        by (simp add: siftDown.simps[of heap r index])
      have "mset h' = mset (heap[ci := r, index := heap ! ci])"
        using 1(1)[OF False pc c F _ _ r] ci by simp
      also have "\<dots> = mset heap"
        using mset_swap[of index heap ci] ci 1(2,3) by simp
      finally show ?thesis .
    qed
  qed
qed

lemma mset_butlast_last: "heap \<noteq> [] \<Longrightarrow> mset heap = add_mset (last heap) (mset (butlast heap))"
  by (induction heap) auto

lemma takeFromHeap_mset:
  assumes "takeFromHeap heap = Inr (x, h')"
  shows "case x of None \<Rightarrow> heap = [] \<and> h' = [] | Some y \<Rightarrow> mset heap = add_mset y (mset h')"
proof (cases heap)
  case Nil
  with assms show ?thesis by (auto simp: takeFromHeap_def)
next
  case (Cons elt rest)
  show ?thesis
  proof (cases "butlast heap = []")
    case True
    with assms Cons show ?thesis by (auto simp: takeFromHeap_def Let_def split: if_splits)
  next
    case False
    with assms Cons have s: "siftDown ((butlast heap)[0 := last heap]) (last heap) 0 = Inr h'" and x: "x = Some elt"
      by (auto simp: takeFromHeap_def Let_def split: sum.splits)
    from False Cons obtain rest' where b: "butlast heap = elt # rest'"
      by (cases rest) auto
    have "mset h' = mset ((butlast heap)[0 := last heap])"
      using siftDown_mset[OF _ _ s] b by simp
    then have "mset h' = add_mset (last heap) (mset rest')" using b by simp
    moreover have "mset heap = add_mset (last heap) (add_mset elt (mset rest'))"
      using mset_butlast_last[of heap] Cons b by simp
    ultimately show ?thesis using x by (simp add: add_mset_commute)
  qed
qed

subsection \<open>The loop of the span builder terminates\<close>

text \<open>
  Each turn takes one item off the heap. A cursor goes back with one decoration fewer, or
  its iterator yields cursors for nodes it has not visited yet; an active decoration is
  put on the heap once and taken off once.
\<close>

fun item_weight :: "Heapable \<Rightarrow> nat" where
  "item_weight (HDecoration obj d) = 1"
| "item_weight (HLocalSet l) = 2 * (length (ls_decorations l) - ls_index l)"

definition heap_weight :: "Heapable list \<Rightarrow> nat" where
  "heap_weight heap = sum_list (map item_weight heap)"

definition iters_weight :: "Decoration list \<Rightarrow> IteratedSet list list \<Rightarrow> nat" where
  "iters_weight nd iters = sum_list (map (stack_weight nd) iters)"

definition state_weight :: "Decoration list \<Rightarrow> SpanState \<Rightarrow> nat" where
  "state_weight nd st = heap_weight (sp_heap st) + iters_weight nd (sp_iters st)"

lemma heap_weight_mset: "mset h' = add_mset x (mset h) \<Longrightarrow> heap_weight h' = item_weight x + heap_weight h"
proof -
  assume a: "mset h' = add_mset x (mset h)"
  have "heap_weight h' = sum_mset (image_mset item_weight (mset h'))"
    by (simp add: heap_weight_def sum_mset_sum_list[symmetric])
  also have "\<dots> = item_weight x + sum_mset (image_mset item_weight (mset h))"
    by (simp add: a)
  finally show ?thesis by (simp add: heap_weight_def sum_mset_sum_list[symmetric])
qed

lemma addToHeap_weight: "addToHeap heap elt = Inr h' \<Longrightarrow> heap_weight h' = item_weight elt + heap_weight heap"
  by (rule heap_weight_mset) (rule addToHeap_mset)

lemma takeFromHeap_weight: "takeFromHeap heap = Inr (Some y, h') \<Longrightarrow> heap_weight heap = item_weight y + heap_weight h'"
  using takeFromHeap_mset[of heap "Some y" h'] by (simp add: heap_weight_mset)

lemma iters_weight_update:
  "k < length iters \<Longrightarrow> iters_weight nd (iters[k := stack']) + stack_weight nd (iters ! k) = iters_weight nd iters + stack_weight nd stack'"
  unfolding iters_weight_def
proof (induction iters arbitrary: k)
  case Nil
  then show ?case by simp
next
  case (Cons a iters)
  then show ?case by (cases k) auto
qed

lemma addIterToHeap_weight:
  "addIterToHeap nd heap iters k skip = Inr (heap', iters') \<Longrightarrow>
     length iters' = length iters \<and> heap_weight heap' + iters_weight nd iters' \<le> heap_weight heap + iters_weight nd iters"
proof (induction nd heap iters k skip arbitrary: heap' iters' rule: addIterToHeap.induct)
  case (1 nd heap iters k skip)
  from 1(2) have k: "k < length iters"
    by (simp add: addIterToHeap.simps[of nd heap iters k skip] split: if_splits)
  from 1(2) k obtain r stack' where n: "iter_next nd k skip (iters ! k) = Inr (r, stack')"
    by (cases "iter_next nd k skip (iters ! k)") (auto simp: addIterToHeap.simps[of nd heap iters k skip])
  note w = iter_next_weight[OF n] iters_weight_update[OF k, of nd stack']
  show ?case
  proof (cases r)
    case None
    with 1(2) k n w show ?thesis
      by (auto simp: addIterToHeap.simps[of nd heap iters k skip])
  next
    case (Some nxt)
    from 1(2) k n Some obtain h1 where a: "addToHeap heap (HLocalSet nxt) = Inr h1"
      by (cases "addToHeap heap (HLocalSet nxt)") (auto simp: addIterToHeap.simps[of nd heap iters k skip])
    note aw = addToHeap_weight[OF a]
    show ?thesis
    proof (cases "ls_next nxt \<noteq> None")
      case True
      with 1(2) k n Some a have "heap' = h1" "iters' = iters[k := stack']"
        by (auto simp: addIterToHeap.simps[of nd heap iters k skip])
      with w aw Some show ?thesis by simp
    next
      case False
      with 1(2) k n Some a have "addIterToHeap nd h1 (iters[k := stack']) k skip = Inr (heap', iters')"
        by (auto simp: addIterToHeap.simps[of nd heap iters k skip])
      from 1(1)[OF k n refl Some a False this] w aw Some show ?thesis by simp
    qed
  qed
qed

lemma advance_cursor_weight:
  assumes "advance_cursor nd heap iters nxt = Inr (heap', iters')"
    and "ls_index nxt < length (ls_decorations nxt)"
  shows "length iters' = length iters
     \<and> heap_weight heap' + iters_weight nd iters' + 2 \<le> item_weight (HLocalSet nxt) + heap_weight heap + iters_weight nd iters"
proof (cases "ls_index nxt + 1 < length (ls_decorations nxt)")
  case True
  with assms(1) obtain a: "addToHeap heap (HLocalSet (LocalSet (ls_offset nxt) (ls_decorations nxt) (ls_next nxt) (ls_index nxt + 1))) = Inr heap'"
    and "iters' = iters"
    by (auto simp: advance_cursor_def split: sum.splits)
  with addToHeap_weight[OF a] assms(2) show ?thesis by simp
next
  case False
  show ?thesis
  proof (cases "ls_next nxt")
    case None
    with False assms have "heap' = heap" "iters' = iters" by (auto simp: advance_cursor_def)
    with assms(2) show ?thesis by simp
  next
    case (Some k)
    with False assms(1) have "addIterToHeap nd heap iters k 0 = Inr (heap', iters')"
      by (simp add: advance_cursor_def)
    from addIterToHeap_weight[OF this] assms(2) show ?thesis by simp linarith
  qed
qed

lemma start_deco_weight:
  assumes "start_deco from to st deco offset heap iters = Inr (brk, st')"
  shows "length (sp_iters st') = length iters \<and> state_weight nd st' \<le> heap_weight heap + iters_weight nd iters + 1"
  using assms
  by (auto simp: start_deco_def Let_def state_weight_def
        split: if_splits DecorationDesc.splits prod.splits sum.splits dest!: addToHeap_weight)

lemma span_step_weight:
  assumes "span_step nd from to st = Inr (brk, st')"
  shows "state_weight nd st' < state_weight nd st"
proof -
  from assms obtain x heap where t: "takeFromHeap (sp_heap st) = Inr (Some x, heap)"
    by (auto simp: span_step_def split: sum.splits option.splits prod.splits)
  note tw = takeFromHeap_weight[OF t]
  show ?thesis
  proof (cases x)
    case (HDecoration obj deco)
    with assms t tw show ?thesis
      by (auto simp: span_step_def state_weight_def end_deco_def split: if_splits prod.splits)
  next
    case (HLocalSet nxt)
    with assms t have v: "ls_index nxt < length (ls_decorations nxt)"
      by (auto simp: span_step_def split: if_splits)
    from assms t HLocalSet v obtain heap' iters' where
      ac: "advance_cursor nd heap (sp_iters st) nxt = Inr (heap', iters')"
      and sd: "start_deco from to st (ls_decorations nxt ! ls_index nxt) (ls_offset nxt) heap' iters' = Inr (brk, st')"
      by (auto simp: span_step_def split: sum.splits)
    from advance_cursor_weight[OF ac v] start_deco_weight[OF sd, where nd=nd] tw HLocalSet
    show ?thesis by (simp add: state_weight_def)
  qed
qed

termination span_loop
  by (relation "measure (\<lambda>(nd, from, to, st). state_weight nd st)") (auto dest: span_step_weight)

declare span_loop.simps [simp del]

text \<open>
  The \<open>for\<close> loop that seeds the heap, one new iterator per set with \<open>size > 0\<close>, and
  the function itself.
\<close>

fun seed_heap :: "Decoration list \<Rightarrow> int \<Rightarrow> DecorationSet list \<Rightarrow> Heapable list
    \<Rightarrow> IteratedSet list list \<Rightarrow> error + (Heapable list \<times> IteratedSet list list)" where
  "seed_heap nd from [] heap iters = Inr (heap, iters)"
| "seed_heap nd from (s # sets) heap iters =
     (if set_size s > 0 then
        (case addIterToHeap nd heap (iters @ [[IteratedSet 0 s (- 1)]]) (length iters) from of
           Inl e \<Rightarrow> Inl e
         | Inr (heap', iters') \<Rightarrow> seed_heap nd from sets heap' iters')
      else seed_heap nd from sets heap iters)"

definition decoratedSpansInRange :: "Decoration list \<Rightarrow> DecorationSet list \<Rightarrow> int \<Rightarrow> int
    \<Rightarrow> error + DecoratedRange list" where
  "decoratedSpansInRange nd sets from to =
     (case seed_heap nd from sets [] [] of
        Inl e \<Rightarrow> Inl e
      | Inr (heap, iters) \<Rightarrow>
          (case span_loop nd from to (SpanState heap iters [] [] from 0) of
             Inl e \<Rightarrow> Inl e
           | Inr st \<Rightarrow>
               Inr (if sp_pos st < to
                    then sp_result st @ [build (sp_pos st) to (map snd (sp_active st))]
                    else sp_result st)))"

subsection \<open>The span builder does not throw, and what it has emitted is contiguous\<close>

text \<open>
  A cursor on the heap stands on a decoration of its array, and its \<open>next\<close> is an
  iterator of the store; the index of a stack element is at most the number of children.
\<close>

fun item_ok :: "nat \<Rightarrow> Heapable \<Rightarrow> bool" where
  "item_ok n (HDecoration obj d) = True"
| "item_ok n (HLocalSet l) =
     (ls_index l < length (ls_decorations l) \<and> (case ls_next l of None \<Rightarrow> True | Some k \<Rightarrow> k < n))"

definition heap_ok :: "nat \<Rightarrow> Heapable list \<Rightarrow> bool" where
  "heap_ok n heap = list_all (item_ok n) heap"

definition stack_ok :: "IteratedSet list \<Rightarrow> bool" where
  "stack_ok stack = list_all (\<lambda>e. it_index e \<le> int (length (children (it_set e)))) stack"

definition iters_ok :: "IteratedSet list list \<Rightarrow> bool" where
  "iters_ok iters = list_all stack_ok iters"

lemma compareHeapable_ok:
  "item_ok n a \<Longrightarrow> item_ok n b \<Longrightarrow> \<exists>c. compareHeapable a b = Inr c"
  by (cases a; cases b) (auto simp: compareHeapable_def)

lemma heap_ok_nth: "heap_ok n heap \<Longrightarrow> i < length heap \<Longrightarrow> item_ok n (heap ! i)"
  by (simp add: heap_ok_def list_all_length)

lemma heap_ok_update: "heap_ok n heap \<Longrightarrow> item_ok n x \<Longrightarrow> heap_ok n (heap[i := x])"
  unfolding heap_ok_def list_all_iff using set_update_subset_insert[of heap i x] by auto

lemma heap_ok_mset: "mset h' = mset h \<Longrightarrow> heap_ok n h' = heap_ok n h"
  unfolding heap_ok_def list_all_iff by (metis set_mset_mset)

lemma siftUp_ok:
  "heap_ok n heap \<Longrightarrow> item_ok n elt \<Longrightarrow> index < length heap \<Longrightarrow> \<exists>h'. siftUp heap elt index = Inr h'"
proof (induction heap elt index rule: siftUp.induct)
  case (1 heap elt index)
  show ?case
  proof (cases "index > 0")
    case False
    then show ?thesis by (subst siftUp.simps) simp
  next
    case True
    have p: "index div 2 < length heap" using 1(4) by simp
    from compareHeapable_ok[OF 1(3) heap_ok_nth[OF 1(2) p]]
    obtain c where c: "compareHeapable elt (heap ! (index div 2)) = Inr c" by blast
    show ?thesis
    proof (cases "c \<ge> 0")
      case T: True
      with True p c show ?thesis by (simp add: siftUp.simps[of heap elt index] Let_def)
    next
      case F: False
      have ok: "heap_ok n (heap[index := heap ! (index div 2), index div 2 := elt])"
        by (intro heap_ok_update 1(2,3) heap_ok_nth[OF 1(2) p])
      from 1(1)[OF True refl p refl c F ok 1(3)] p True c F show ?thesis
        by (simp add: siftUp.simps[of heap elt index] Let_def)
    qed
  qed
qed

lemma addToHeap_ok:
  assumes "heap_ok n heap" "item_ok n elt"
  shows "\<exists>h'. addToHeap heap elt = Inr h' \<and> heap_ok n h' \<and> length h' = Suc (length heap)"
proof -
  have ok: "heap_ok n (heap @ [elt])" using assms by (simp add: heap_ok_def)
  from siftUp_ok[OF ok assms(2), of "length heap"] obtain h' where h: "addToHeap heap elt = Inr h'"
    by (auto simp: addToHeap_def)
  from addToHeap_mset[OF h] have m: "mset h' = mset (heap @ [elt])" by simp
  from heap_ok_mset[OF m] ok mset_eq_length[OF m] h show ?thesis by simp
qed

lemma pick_child_ok:
  "heap_ok n heap \<Longrightarrow> ci < length heap \<Longrightarrow> \<exists>ci'. pick_child heap ci = Inr ci'"
  using compareHeapable_ok[of n "heap ! ci" "heap ! (ci + 1)"]
  by (auto simp: pick_child_def heap_ok_nth)

lemma siftDown_ok:
  "heap_ok n heap \<Longrightarrow> item_ok n r \<Longrightarrow> \<exists>h'. siftDown heap r index = Inr h'"
proof (induction heap r index rule: siftDown.induct)
  case (1 heap r index)
  show ?case
  proof (cases "2 * index + 1 \<ge> length heap")
    case True
    then show ?thesis by (simp add: siftDown.simps[of heap r index])
  next
    case False
    then have lt: "2 * index + 1 < length heap" by simp
    from pick_child_ok[OF 1(2) lt] obtain ci where pc: "pick_child heap (2 * index + 1) = Inr ci" by blast
    from pick_child_bounds[OF pc lt] have ci: "ci < length heap" by simp
    from compareHeapable_ok[OF 1(3) heap_ok_nth[OF 1(2) ci]]
    obtain c where c: "compareHeapable r (heap ! ci) = Inr c" by blast
    show ?thesis
    proof (cases "c < 0")
      case True
      with False pc c show ?thesis by (simp add: siftDown.simps[of heap r index])
    next
      case F: False
      have ok: "heap_ok n (heap[ci := r, index := heap ! ci])"
        by (intro heap_ok_update 1(2,3) heap_ok_nth[OF 1(2) ci])
      from 1(1)[OF False pc c F ok 1(3)] False pc c F show ?thesis
        by (simp add: siftDown.simps[of heap r index])
    qed
  qed
qed

lemma takeFromHeap_ok:
  assumes "heap_ok n heap" "heap \<noteq> []"
  shows "\<exists>x h'. takeFromHeap heap = Inr (Some x, h') \<and> item_ok n x \<and> heap_ok n h'"
proof -
  from assms(2) obtain elt rest where hc: "heap = elt # rest" by (cases heap) auto
  have l: "item_ok n (last heap)" using assms by (simp add: heap_ok_def list_all_iff)
  have b: "heap_ok n (butlast heap)" using assms(1) by (auto simp: heap_ok_def list_all_iff dest: in_set_butlastD)
  have t0: "takeFromHeap heap =
      (if length (butlast heap) = 0 then Inr (Some elt, butlast heap)
       else case siftDown ((butlast heap)[0 := last heap]) (last heap) 0 of
              Inl e \<Rightarrow> Inl e | Inr h'' \<Rightarrow> Inr (Some elt, h''))"
    by (simp add: takeFromHeap_def Let_def hc)
  from siftDown_ok[OF heap_ok_update[OF b l, of 0] l, of 0]
  obtain h1 where "siftDown ((butlast heap)[0 := last heap]) (last heap) 0 = Inr h1" by blast
  then obtain h' where t: "takeFromHeap heap = Inr (Some elt, h')"
    unfolding t0 by (cases "length (butlast heap) = 0") simp_all
  from takeFromHeap_mset[OF t] have m: "mset heap = add_mset elt (mset h')" by simp
  have "set heap = insert elt (set h')" using arg_cong[OF m, of set_mset] by simp
  with assms(1) t show ?thesis by (auto simp: heap_ok_def list_all_iff)
qed

lemma iter_next_ok:
  "stack_ok stack \<Longrightarrow> \<exists>r stack'. iter_next nd self skip stack = Inr (r, stack') \<and> stack_ok stack'"
proof (induction nd self skip stack rule: iter_next.induct)
  case (1 nd self skip)
  then show ?case by simp
next
  case (2 nd self skip tp rest)
  from 2(4) have tp: "it_index tp \<le> int (length (children (it_set tp)))" and rest: "stack_ok rest"
    by (simp_all add: stack_ok_def)
  show ?case
  proof (cases "it_index tp < 0 \<and> length (the_array nd (local (it_set tp))) > 0")
    case True
    with rest show ?thesis
      by (simp add: iter_next.simps(2)[of nd self skip tp rest] stack_ok_def)
  next
    case False
    define index where "index = (if it_index tp < 0 then 0 else it_index tp)"
    have le: "index \<le> int (length (children (it_set tp)))" using tp by (simp add: index_def)
    show ?thesis
    proof (cases "index = int (length (children (it_set tp)))")
      case True
      from 2(1)[OF False index_def True rest] False True index_def show ?thesis
        by (auto simp: iter_next.simps(2)[of nd self skip tp rest] Let_def)
    next
      case ne: False
      with le have lt: "index < int (length (children (it_set tp)))" by simp
      define nxt where "nxt = children (it_set tp) ! nat index"
      define tp' where "tp' = IteratedSet (it_offset tp + set_length nxt) (it_set tp) (index + 1)"
      have ok': "stack_ok (tp' # rest)" using rest lt by (simp add: stack_ok_def tp'_def)
      have ok'': "stack_ok (IteratedSet (it_offset tp) nxt (- 1) # tp' # rest)"
        using ok' by (simp add: stack_ok_def)
      show ?thesis
      proof (cases "skip > set_length nxt")
        case True
        from 2(2)[OF False index_def ne lt nxt_def refl tp'_def True ok'] False ne lt True
        show ?thesis
          by (auto simp: iter_next.simps(2)[of nd self skip tp rest] Let_def index_def[symmetric] nxt_def[symmetric] tp'_def[symmetric])
      next
        case F: False
        from 2(3)[OF False index_def ne lt nxt_def refl tp'_def F ok''] False ne lt F
        show ?thesis
          by (auto simp: iter_next.simps(2)[of nd self skip tp rest] Let_def index_def[symmetric] nxt_def[symmetric] tp'_def[symmetric])
      qed
    qed
  qed
qed

lemma iters_ok_update: "iters_ok iters \<Longrightarrow> stack_ok s \<Longrightarrow> iters_ok (iters[k := s])"
  unfolding iters_ok_def list_all_iff using set_update_subset_insert[of iters k s] by auto

lemma iters_ok_nth: "iters_ok iters \<Longrightarrow> k < length iters \<Longrightarrow> stack_ok (iters ! k)"
  by (simp add: iters_ok_def list_all_length)

lemma addIterToHeap_ok:
  "k < length iters \<Longrightarrow> iters_ok iters \<Longrightarrow> heap_ok (length iters) heap \<Longrightarrow>
     \<exists>heap' iters'. addIterToHeap nd heap iters k skip = Inr (heap', iters')
        \<and> length iters' = length iters \<and> iters_ok iters' \<and> heap_ok (length iters) heap'"
proof (induction nd heap iters k skip rule: addIterToHeap.induct)
  case (1 nd heap iters k skip)
  from iter_next_ok[OF iters_ok_nth[OF 1(3,2)], of nd k skip]
  obtain r stack' where n: "iter_next nd k skip (iters ! k) = Inr (r, stack')" and so: "stack_ok stack'"
    by blast
  have io: "iters_ok (iters[k := stack'])" by (rule iters_ok_update[OF 1(3) so])
  show ?case
  proof (cases r)
    case None
    with n 1(2,4) io show ?thesis
      by (simp add: addIterToHeap.simps[of nd heap iters k skip])
  next
    case (Some nxt)
    from iter_next_weight[OF n] Some 1(2) have ok: "item_ok (length iters) (HLocalSet nxt)"
      by auto
    from addToHeap_ok[OF 1(4) ok] obtain h1 where a: "addToHeap heap (HLocalSet nxt) = Inr h1"
      and h1: "heap_ok (length iters) h1" by blast
    show ?thesis
    proof (cases "ls_next nxt \<noteq> None")
      case True
      with n Some a 1(2) io h1 show ?thesis
        by (simp add: addIterToHeap.simps[of nd heap iters k skip])
    next
      case False
      from 1(1)[OF 1(2) n refl Some a False] 1(2) io h1
      have "\<exists>heap' iters'. addIterToHeap nd h1 (iters[k := stack']) k skip = Inr (heap', iters')
        \<and> length iters' = length iters \<and> iters_ok iters' \<and> heap_ok (length iters) heap'"
        by simp
      with n Some a 1(2) False show ?thesis
        by (simp add: addIterToHeap.simps[of nd heap iters k skip])
    qed
  qed
qed

fun contiguous :: "int \<Rightarrow> int \<Rightarrow> DecoratedRange list \<Rightarrow> bool" where
  "contiguous from to [] = (from = to)"
| "contiguous from to (r # rs) = (dr_from r = from \<and> dr_from r < dr_to r \<and> contiguous (dr_to r) to rs)"

lemma contiguous_snoc:
  "contiguous a b rs \<Longrightarrow> b < c \<Longrightarrow> contiguous a c (rs @ [build b c act])"
  by (induction rs arbitrary: a) (auto simp: build_def split: prod.splits)

lemma contiguous_le: "contiguous a b rs \<Longrightarrow> a \<le> b"
  by (induction rs arbitrary: a) force+

lemma contiguous_ends:
  "contiguous a b rs \<Longrightarrow> rs \<noteq> [] \<Longrightarrow> dr_from (hd rs) = a \<and> dr_to (last rs) = b"
  by (induction rs arbitrary: a) auto

definition span_inv :: "int \<Rightarrow> int \<Rightarrow> SpanState \<Rightarrow> bool" where
  "span_inv from to st =
     (heap_ok (length (sp_iters st)) (sp_heap st) \<and> iters_ok (sp_iters st)
      \<and> contiguous from (sp_pos st) (sp_result st) \<and> sp_pos st \<le> to)"

lemma advance_cursor_ok:
  assumes "heap_ok (length iters) heap" "iters_ok iters" "item_ok (length iters) (HLocalSet nxt)"
  shows "\<exists>heap' iters'. advance_cursor nd heap iters nxt = Inr (heap', iters')
           \<and> length iters' = length iters \<and> iters_ok iters' \<and> heap_ok (length iters) heap'"
proof (cases "ls_index nxt + 1 < length (ls_decorations nxt)")
  case True
  then have "item_ok (length iters) (HLocalSet (LocalSet (ls_offset nxt) (ls_decorations nxt) (ls_next nxt) (ls_index nxt + 1)))"
    using assms(3) by simp
  from addToHeap_ok[OF assms(1) this] True assms(2) show ?thesis
    by (auto simp: advance_cursor_def)
next
  case False
  show ?thesis
  proof (cases "ls_next nxt")
    case None
    with False assms show ?thesis by (simp add: advance_cursor_def)
  next
    case (Some k)
    with assms(3) have "k < length iters" by simp
    from addIterToHeap_ok[OF this assms(2,1), of nd 0] False Some show ?thesis
      by (simp add: advance_cursor_def)
  qed
qed

lemma emit_upto_inv:
  assumes "contiguous from (sp_pos st) (sp_result st)" "sp_pos st \<le> to" "x \<le> to" "emit_upto st x = (res, pos)"
  shows "contiguous from pos res \<and> pos \<le> to"
  using assms by (auto simp: emit_upto_def contiguous_snoc split: if_splits)

lemma start_deco_ok:
  assumes "heap_ok (length iters) heap" "iters_ok iters"
    "contiguous from (sp_pos st) (sp_result st)" "sp_pos st \<le> to"
  shows "\<exists>brk st'. start_deco from to st deco offset heap iters = Inr (brk, st') \<and> span_inv from to st'"
proof -
  let ?keep = "SpanState heap iters (sp_result st) (sp_active st) (sp_pos st) (sp_made st)"
  have keep: "span_inv from to ?keep" using assms by (simp add: span_inv_def)
  show ?thesis
  proof (cases "dto deco + offset < from \<or> dfrom deco + offset > to")
    case True
    with keep show ?thesis by (auto simp: start_deco_def Let_def)
  next
    case False
    show ?thesis
    proof (cases "desc deco")
      case (PointDesc p)
      with False keep show ?thesis by (auto simp: start_deco_def Let_def)
    next
      case (RangeDesc s)
      show ?thesis
      proof (cases "affectsSpans s")
        case F: False
        with False RangeDesc keep show ?thesis by (auto simp: start_deco_def Let_def)
      next
        case True
        obtain res pos where e: "emit_upto st (dfrom (move deco offset)) = (res, pos)" by fastforce
        have "dfrom (move deco offset) \<le> to" using False by (simp add: move_def)
        from emit_upto_inv[OF assms(3,4) this e] have ei: "contiguous from pos res" "pos \<le> to" by auto
        from addToHeap_ok[OF assms(1), of "HDecoration (sp_made st) (move deco offset)"]
        obtain h' where "addToHeap heap (HDecoration (sp_made st) (move deco offset)) = Inr h'" "heap_ok (length iters) h'"
          by auto
        with False RangeDesc True e ei assms(2) show ?thesis
          by (auto simp: start_deco_def Let_def span_inv_def)
      qed
    qed
  qed
qed

lemma end_deco_ok:
  assumes "heap_ok (length (sp_iters st)) heap" "iters_ok (sp_iters st)"
    "contiguous from (sp_pos st) (sp_result st)" "sp_pos st \<le> to"
  shows "span_inv from to (snd (end_deco to st obj deco heap))"
proof (cases "dto deco \<ge> to")
  case True
  with assms show ?thesis by (simp add: end_deco_def span_inv_def)
next
  case False
  obtain res pos where e: "emit_upto st (dto deco) = (res, pos)" by fastforce
  from False have "dto deco \<le> to" by simp
  from emit_upto_inv[OF assms(3,4) this e] False e assms(1,2) show ?thesis
    by (simp add: end_deco_def span_inv_def)
qed

lemma span_step_ok:
  assumes "span_inv from to st" "sp_heap st \<noteq> []"
  shows "\<exists>brk st'. span_step nd from to st = Inr (brk, st') \<and> span_inv from to st'"
proof -
  from assms have ho: "heap_ok (length (sp_iters st)) (sp_heap st)" and io: "iters_ok (sp_iters st)"
    and c: "contiguous from (sp_pos st) (sp_result st)" and p: "sp_pos st \<le> to"
    by (simp_all add: span_inv_def)
  from takeFromHeap_ok[OF ho assms(2)] obtain x heap where
    t: "takeFromHeap (sp_heap st) = Inr (Some x, heap)" and x: "item_ok (length (sp_iters st)) x"
    and h: "heap_ok (length (sp_iters st)) heap" by blast
  show ?thesis
  proof (cases x)
    case (HDecoration obj deco)
    with t end_deco_ok[OF h io c p, of obj deco] show ?thesis
      by (cases "end_deco to st obj deco heap") (simp add: span_step_def)
  next
    case (HLocalSet nxt)
    with x have v: "ls_index nxt < length (ls_decorations nxt)" by simp
    from advance_cursor_ok[OF h io x[unfolded HLocalSet], of nd]
    obtain heap' iters' where ac: "advance_cursor nd heap (sp_iters st) nxt = Inr (heap', iters')"
      and l: "length iters' = length (sp_iters st)" and io': "iters_ok iters'"
      and ho': "heap_ok (length (sp_iters st)) heap'" by blast
    from start_deco_ok[OF ho'[folded l] io' c p] t HLocalSet v ac show ?thesis
      by (simp add: span_step_def)
  qed
qed

lemma span_loop_ok:
  "span_inv from to st \<Longrightarrow> \<exists>st'. span_loop nd from to st = Inr st' \<and> span_inv from to st'"
proof (induction nd "from" to st rule: span_loop.induct)
  case (1 nd "from" to st)
  show ?case
  proof (cases "length (sp_heap st) > 0")
    case False
    with 1(2) show ?thesis by (simp add: span_loop.simps[of nd "from" to st])
  next
    case True
    then have "sp_heap st \<noteq> []" by simp
    from span_step_ok[OF 1(2) this, of nd] obtain brk st' where
      s: "span_step nd from to st = Inr (brk, st')" and i: "span_inv from to st'" by blast
    show ?thesis
    proof (cases brk)
      case T: True
      with True s i show ?thesis by (simp add: span_loop.simps[of nd "from" to st])
    next
      case False
      from 1(1)[OF True s refl False i] True s False show ?thesis
        by (simp add: span_loop.simps[of nd "from" to st])
    qed
  qed
qed

lemma heap_ok_mono: "heap_ok n heap \<Longrightarrow> n \<le> m \<Longrightarrow> heap_ok m heap"
proof -
  have "item_ok n x \<Longrightarrow> n \<le> m \<Longrightarrow> item_ok m x" for x
    by (cases x) (auto split: option.splits)
  then show "heap_ok n heap \<Longrightarrow> n \<le> m \<Longrightarrow> heap_ok m heap"
    by (auto simp: heap_ok_def list_all_iff)
qed

lemma seed_heap_ok:
  "heap_ok (length iters) heap \<Longrightarrow> iters_ok iters \<Longrightarrow>
     \<exists>heap' iters'. seed_heap nd skip sets heap iters = Inr (heap', iters')
        \<and> heap_ok (length iters') heap' \<and> iters_ok iters'"
proof (induction sets arbitrary: heap iters)
  case Nil
  then show ?case by simp
next
  case (Cons s sets)
  show ?case
  proof (cases "set_size s > 0")
    case False
    with Cons show ?thesis by simp
  next
    case True
    let ?iters = "iters @ [[IteratedSet 0 s (- 1)]]"
    have io: "iters_ok ?iters" using Cons(3) by (simp add: iters_ok_def stack_ok_def)
    have ho: "heap_ok (length ?iters) heap" using heap_ok_mono[OF Cons(2)] by simp
    from addIterToHeap_ok[OF _ io ho, of "length iters" nd skip]
    obtain heap' iters' where a: "addIterToHeap nd heap ?iters (length iters) skip = Inr (heap', iters')"
      and l: "length iters' = length ?iters" and io': "iters_ok iters'" and ho': "heap_ok (length ?iters) heap'"
      by auto
    from Cons(1)[OF ho'[folded l] io'] a True show ?thesis by simp
  qed
qed

subsection \<open>What the iterator does with a child\<close>

text \<open>
  \<open>next_calls\<close> is a sequence of calls \<open>next(skip)\<close> on one iterator, one per element
  of \<open>skips\<close>, and what each returns. \<open>cur_index\<close> is \<open>top.index\<close> as the loop of
  \<open>next\<close> sees it after its first \<open>if\<close>; \<open>yields_local\<close> says that the first \<open>if\<close>
  returns the node's own cursor. Two stack elements are similar when \<open>next\<close> cannot tell
  them apart: they differ only in children the index has passed.
\<close>

fun next_calls :: "Decoration list \<Rightarrow> nat \<Rightarrow> int list \<Rightarrow> IteratedSet list \<Rightarrow> (error + LocalSet option) list" where
  "next_calls nd self [] stack = []"
| "next_calls nd self (skip # skips) stack =
     (case iter_next nd self skip stack of
        Inl e \<Rightarrow> [Inl e]
      | Inr (r, stack') \<Rightarrow> Inr r # next_calls nd self skips stack')"

definition replace_child :: "DecorationSet \<Rightarrow> nat \<Rightarrow> DecorationSet \<Rightarrow> DecorationSet" where
  "replace_child s i c = DecorationSet (set_length s) (set_size s) (local s) ((children s)[i := c])"

definition entry_sim :: "IteratedSet \<Rightarrow> IteratedSet \<Rightarrow> bool" where
  "entry_sim e e' =
     (it_offset e = it_offset e' \<and> it_index e = it_index e'
      \<and> local (it_set e) = local (it_set e')
      \<and> length (children (it_set e)) = length (children (it_set e'))
      \<and> drop (nat (it_index e)) (children (it_set e)) = drop (nat (it_index e')) (children (it_set e')))"

lemma entry_sim_refl: "entry_sim e e" by (simp add: entry_sim_def)

definition cur_index :: "IteratedSet \<Rightarrow> int" where
  "cur_index e = (if it_index e < 0 then 0 else it_index e)"

definition yields_local :: "Decoration list \<Rightarrow> IteratedSet \<Rightarrow> bool" where
  "yields_local nd e = (it_index e < 0 \<and> length (the_array nd (local (it_set e))) > 0)"

lemma iter_next_yield:
  "yields_local nd tp \<Longrightarrow>
     iter_next nd self skip (tp # rest) =
       Inr (Some (LocalSet (it_offset tp) (the_array nd (local (it_set tp)))
                    (if children (it_set tp) \<noteq> [] then None else Some self) 0),
            IteratedSet (it_offset tp) (it_set tp) 0 # rest)"
  by (simp add: iter_next.simps(2) yields_local_def)

lemma iter_next_pop:
  "\<not> yields_local nd tp \<Longrightarrow> cur_index tp = int (length (children (it_set tp))) \<Longrightarrow>
     iter_next nd self skip (tp # rest) = iter_next nd self skip rest"
  by (auto simp: iter_next.simps(2)[of nd self skip tp rest] yields_local_def cur_index_def Let_def)

lemma iter_next_error:
  "\<not> yields_local nd tp \<Longrightarrow> cur_index tp > int (length (children (it_set tp))) \<Longrightarrow>
     iter_next nd self skip (tp # rest) = Inl TypeError"
  by (auto simp: iter_next.simps(2)[of nd self skip tp rest] yields_local_def cur_index_def Let_def)

lemma iter_next_bypass:
  "\<not> yields_local nd tp \<Longrightarrow> cur_index tp < int (length (children (it_set tp))) \<Longrightarrow>
   skip > set_length (children (it_set tp) ! nat (cur_index tp)) \<Longrightarrow>
     iter_next nd self skip (tp # rest) =
       iter_next nd self (skip - set_length (children (it_set tp) ! nat (cur_index tp)))
         (IteratedSet (it_offset tp + set_length (children (it_set tp) ! nat (cur_index tp)))
            (it_set tp) (cur_index tp + 1) # rest)"
  by (auto simp: iter_next.simps(2)[of nd self skip tp rest] yields_local_def cur_index_def Let_def)

lemma iter_next_descend:
  "\<not> yields_local nd tp \<Longrightarrow> cur_index tp < int (length (children (it_set tp))) \<Longrightarrow>
   \<not> skip > set_length (children (it_set tp) ! nat (cur_index tp)) \<Longrightarrow>
     iter_next nd self skip (tp # rest) =
       iter_next nd self skip
         (IteratedSet (it_offset tp) (children (it_set tp) ! nat (cur_index tp)) (- 1)
          # IteratedSet (it_offset tp + set_length (children (it_set tp) ! nat (cur_index tp)))
              (it_set tp) (cur_index tp + 1) # rest)"
  by (auto simp: iter_next.simps(2)[of nd self skip tp rest] yields_local_def cur_index_def Let_def)

lemma entry_sim_facts:
  assumes "entry_sim e e'"
  shows "it_offset e' = it_offset e" "it_index e' = it_index e" "local (it_set e') = local (it_set e)"
    "length (children (it_set e')) = length (children (it_set e))"
    "cur_index e' = cur_index e" "yields_local nd e' = yields_local nd e"
    "(children (it_set e') \<noteq> []) = (children (it_set e) \<noteq> [])"
    "cur_index e < int (length (children (it_set e))) \<Longrightarrow>
       children (it_set e') ! nat (cur_index e) = children (it_set e) ! nat (cur_index e)"
    "cur_index e < int (length (children (it_set e))) \<Longrightarrow>
       entry_sim (IteratedSet off (it_set e) (cur_index e + 1)) (IteratedSet off (it_set e') (cur_index e + 1))"
    "entry_sim (IteratedSet off (it_set e) 0) (IteratedSet off (it_set e') 0) \<or> 0 < it_index e"
proof -
  from assms have o: "it_offset e' = it_offset e" and ix: "it_index e' = it_index e"
    and lo: "local (it_set e') = local (it_set e)"
    and len: "length (children (it_set e')) = length (children (it_set e))"
    and dr: "drop (nat (it_index e)) (children (it_set e')) = drop (nat (it_index e)) (children (it_set e))"
    by (auto simp: entry_sim_def)
  show "it_offset e' = it_offset e" "it_index e' = it_index e" "local (it_set e') = local (it_set e)"
    "length (children (it_set e')) = length (children (it_set e))" by fact+
  show "cur_index e' = cur_index e" by (simp add: cur_index_def ix)
  show "yields_local nd e' = yields_local nd e" by (simp add: yields_local_def ix lo)
  show "(children (it_set e') \<noteq> []) = (children (it_set e) \<noteq> [])" using len by auto
  have ni: "nat (it_index e) = nat (cur_index e)" by (simp add: cur_index_def)
  have i0: "0 \<le> cur_index e" by (simp add: cur_index_def)
  { assume lt: "cur_index e < int (length (children (it_set e)))"
    then have n: "nat (cur_index e) < length (children (it_set e))" using i0 by linarith
    show "children (it_set e') ! nat (cur_index e) = children (it_set e) ! nat (cur_index e)"
      using arg_cong[OF dr, of "\<lambda>xs. xs ! 0"] n len by (simp add: ni)
    have "drop (Suc (nat (cur_index e))) (children (it_set e')) = drop (Suc (nat (cur_index e))) (children (it_set e))"
      using arg_cong[OF dr, of "drop 1"] by (simp add: ni)
    then show "entry_sim (IteratedSet off (it_set e) (cur_index e + 1)) (IteratedSet off (it_set e') (cur_index e + 1))"
      using i0 len lo by (simp add: entry_sim_def nat_add_distrib) }
  show "entry_sim (IteratedSet off (it_set e) 0) (IteratedSet off (it_set e') 0) \<or> 0 < it_index e"
  proof (cases "0 < it_index e")
    case False
    then have "nat (it_index e) = 0" by simp
    with dr len lo show ?thesis by (simp add: entry_sim_def)
  qed simp
qed

lemma iter_next_sim:
  "list_all2 entry_sim stack stack2 \<Longrightarrow>
     (case iter_next nd self skip stack of
        Inl e \<Rightarrow> iter_next nd self skip stack2 = Inl e
      | Inr (r, stack') \<Rightarrow> (\<exists>stack2'. iter_next nd self skip stack2 = Inr (r, stack2') \<and> list_all2 entry_sim stack' stack2'))"
proof (induction nd self skip stack arbitrary: stack2 rule: iter_next.induct)
  case (1 nd self skip)
  then show ?case by simp
next
  case (2 nd self skip tp rest)
  from 2(4) obtain tp2 rest2 where s2: "stack2 = tp2 # rest2" and e: "entry_sim tp tp2"
    and r: "list_all2 entry_sim rest rest2"
    by (cases stack2) auto
  note f = entry_sim_facts[OF e]
  show ?case
  proof (cases "yields_local nd tp")
    case True
    then have "\<not> 0 < it_index tp" by (simp add: yields_local_def)
    with f(10)[of "it_offset tp"] have "entry_sim (IteratedSet (it_offset tp) (it_set tp) 0) (IteratedSet (it_offset tp) (it_set tp2) 0)"
      by simp
    moreover have "yields_local nd tp2" using True by (simp add: f(6))
    ultimately show ?thesis
      unfolding s2 iter_next_yield[OF True] iter_next_yield[OF \<open>yields_local nd tp2\<close>]
      using r by (simp add: f(1,3,7))
  next
    case False
    then have F2: "\<not> yields_local nd tp2" by (simp add: f(6))
    from False have F0: "\<not> (it_index tp < 0 \<and> 0 < length (the_array nd (local (it_set tp))))"
      by (simp add: yields_local_def)
    have ci: "cur_index tp = (if it_index tp < 0 then 0 else it_index tp)" by (simp add: cur_index_def)
    consider (pop) "cur_index tp = int (length (children (it_set tp)))"
      | (err) "cur_index tp > int (length (children (it_set tp)))"
      | (lt) "cur_index tp < int (length (children (it_set tp)))" by linarith
    then show ?thesis
    proof cases
      case pop
      have pop2: "cur_index tp2 = int (length (children (it_set tp2)))"
        using pop by (simp add: f(4,5))
      from 2(1)[OF F0 ci pop r] show ?thesis
        unfolding s2 iter_next_pop[OF False pop] iter_next_pop[OF F2 pop2] .
    next
      case err
      have err2: "cur_index tp2 > int (length (children (it_set tp2)))"
        using err by (simp add: f(4,5))
      show ?thesis
        unfolding s2 iter_next_error[OF False err] iter_next_error[OF F2 err2] by simp
    next
      case lt
      have neq: "cur_index tp \<noteq> int (length (children (it_set tp)))" using lt by simp
      let ?nxt = "children (it_set tp) ! nat (cur_index tp)"
      let ?tp' = "IteratedSet (it_offset tp + set_length ?nxt) (it_set tp) (cur_index tp + 1)"
      let ?tp2' = "IteratedSet (it_offset tp + set_length ?nxt) (it_set tp2) (cur_index tp + 1)"
      note es = f(9)[OF lt, of "it_offset tp + set_length ?nxt"]
      have lt2: "cur_index tp2 < int (length (children (it_set tp2)))" using lt by (simp add: f(4,5))
      show ?thesis
      proof (cases "skip > set_length ?nxt")
        case True
        have T2: "skip > set_length (children (it_set tp2) ! nat (cur_index tp2))"
          using True by (simp add: f(5) f(8)[OF lt])
        from 2(2)[OF F0 ci neq lt refl refl refl True, of "?tp2' # rest2"] es r
        show ?thesis
          unfolding s2 iter_next_bypass[OF False lt True] iter_next_bypass[OF F2 lt2 T2]
          unfolding f(1,5) f(8)[OF lt] by simp
      next
        case Fs: False
        have Fs2: "\<not> skip > set_length (children (it_set tp2) ! nat (cur_index tp2))"
          using Fs by (simp add: f(5) f(8)[OF lt])
        from 2(3)[OF F0 ci neq lt refl refl refl Fs, of "IteratedSet (it_offset tp) ?nxt (- 1) # ?tp2' # rest2"] es r
        show ?thesis
          unfolding s2 iter_next_descend[OF False lt Fs] iter_next_descend[OF F2 lt2 Fs2]
          unfolding f(1,5) f(8)[OF lt] by (simp add: entry_sim_refl)
      qed
    qed
  qed
qed

lemma next_calls_sim:
  "list_all2 entry_sim stack stack2 \<Longrightarrow> next_calls nd self skips stack = next_calls nd self skips stack2"
proof (induction skips arbitrary: stack stack2)
  case Nil
  then show ?case by simp
next
  case (Cons skip skips)
  from iter_next_sim[OF Cons(2), of nd self skip] Cons(1) show ?case
    by (auto split: sum.splits prod.splits)
qed


definition child_at :: "IteratedSet \<Rightarrow> DecorationSet" where
  "child_at e = children (it_set e) ! nat (cur_index e)"

definition past_child :: "IteratedSet \<Rightarrow> IteratedSet" where
  "past_child e = IteratedSet (it_offset e + set_length (child_at e)) (it_set e) (cur_index e + 1)"

definition with_child :: "IteratedSet \<Rightarrow> DecorationSet \<Rightarrow> IteratedSet" where
  "with_child e c = IteratedSet (it_offset e) (replace_child (it_set e) (nat (cur_index e)) c) (it_index e)"

definition leaf_1 :: DecorationSet where
  "leaf_1 = DecorationSet 5 1 (Arr [Decoration 1 2 (PointDesc (DecorationPointSpec None None))]) []"

definition leaf_2 :: DecorationSet where
  "leaf_2 = DecorationSet 5 1 (Arr [Decoration 3 4 (PointDesc (DecorationPointSpec None None))]) []"

definition two_leaves :: DecorationSet where
  "two_leaves = DecorationSet 10 2 (Arr []) [leaf_1, leaf_2]"

section \<open>Updating a set\<close>

text \<open>
  \<open>x >> k\<close> and \<open>x << k\<close> convert their left operand to a signed 32-bit integer.
\<close>

definition toInt32 :: "int \<Rightarrow> int" where
  "toInt32 x = (x + 2 ^ 31) mod 2 ^ 32 - 2 ^ 31"

definition shift_right :: "int \<Rightarrow> nat \<Rightarrow> int" where
  "shift_right x k = toInt32 x div 2 ^ k"

definition shift_left :: "int \<Rightarrow> nat \<Rightarrow> int" where
  "shift_left x k = toInt32 (toInt32 x * 2 ^ k)"

definition BASE_NODE_SIZE_SHIFT :: nat where
  "BASE_NODE_SIZE_SHIFT = 5"

definition BASE_NODE_SIZE :: int where
  "BASE_NODE_SIZE = shift_left 1 BASE_NODE_SIZE_SHIFT"

type_synonym DecorationFilter = "int \<Rightarrow> int \<Rightarrow> DecorationSpec \<Rightarrow> bool"

definition byPos :: "Decoration \<Rightarrow> Decoration \<Rightarrow> int" where
  "byPos a b =
     (if dfrom a - dfrom b \<noteq> 0 then dfrom a - dfrom b else bias (desc a) - bias (desc b))"

text \<open>
  \<open>Array.prototype.sort\<close> with a comparison function is a stable sort; here it is the
  insertion sort that keeps equal elements in their order.
\<close>

fun insort_by :: "('a \<Rightarrow> 'a \<Rightarrow> int) \<Rightarrow> 'a \<Rightarrow> 'a list \<Rightarrow> 'a list" where
  "insort_by cmp x [] = [x]"
| "insort_by cmp x (y # ys) = (if cmp x y \<le> 0 then x # y # ys else y # insort_by cmp x ys)"

definition sort_by :: "('a \<Rightarrow> 'a \<Rightarrow> int) \<Rightarrow> 'a list \<Rightarrow> 'a list" where
  "sort_by cmp xs = foldr (insort_by cmp) xs []"

text \<open>\<open>insertSorted\<close>: the \<open>while\<close> loop that finds the index, then the \<open>splice\<close>.\<close>

fun insert_index :: "Decoration list \<Rightarrow> Decoration \<Rightarrow> nat \<Rightarrow> nat" where
  "insert_index target deco 0 = 0"
| "insert_index target deco (Suc i) =
     (if byPos (target ! i) deco \<ge> 0 then insert_index target deco i else Suc i)"

definition insertSorted :: "Decoration list \<Rightarrow> Decoration \<Rightarrow> Decoration list" where
  "insertSorted target deco =
     (let i = insert_index target deco (length target)
      in take i target @ [deco] @ drop i target)"

text \<open>
  \<open>filterDecorations\<close> returns \<open>null\<close> (\<open>None\<close>) when there is no filter or when it
  dropped nothing. The loop goes over \<open>decorations\<close> with the elements before index
  \<open>i\<close> in \<open>seen\<close>.
\<close>

fun filter_loop :: "DecorationFilter \<Rightarrow> int \<Rightarrow> int \<Rightarrow> int \<Rightarrow> Decoration list \<Rightarrow> Decoration list
    \<Rightarrow> Decoration list option \<Rightarrow> Decoration list option" where
  "filter_loop f filterFrom filterTo offset seen [] copy = copy"
| "filter_loop f filterFrom filterTo offset seen (deco # rest) copy =
     (let from = dfrom deco + offset; to = dto deco + offset in
      if filterFrom > to \<or> filterTo < from \<or> f from to (dspec deco)
      then filter_loop f filterFrom filterTo offset (seen @ [deco]) rest
             (case copy of None \<Rightarrow> None | Some c \<Rightarrow> Some (c @ [deco]))
      else filter_loop f filterFrom filterTo offset (seen @ [deco]) rest
             (case copy of None \<Rightarrow> Some seen | Some c \<Rightarrow> Some c))"

definition filterDecorations :: "Decoration list \<Rightarrow> DecorationFilter option \<Rightarrow> int \<Rightarrow> int \<Rightarrow> int
    \<Rightarrow> Decoration list option" where
  "filterDecorations decorations filt filterFrom filterTo offset =
     (case filt of
        None \<Rightarrow> None
      | Some f \<Rightarrow> filter_loop f filterFrom filterTo offset [] decorations None)"

text \<open>
  \<open>collapseSet\<close>. Its loop over the children calls \<open>child.collect(local, -off)\<close>.
  \<open>local\<close> is an array of the caller's own; the result owns it.
\<close>

fun collapse_children :: "Decoration list \<Rightarrow> DecorationSet list \<Rightarrow> int \<Rightarrow> Decoration list" where
  "collapse_children nd [] off = []"
| "collapse_children nd (child # chs) off =
     collect nd child (- off) @ collapse_children nd chs (off + set_length child)"

definition collapseSet :: "Decoration list \<Rightarrow> DecorationSet list \<Rightarrow> Decoration list
    \<Rightarrow> Decoration list \<Rightarrow> nat \<Rightarrow> int \<Rightarrow> int \<Rightarrow> DecorationSet" where
  "collapseSet nd chs loc add start offset len =
     (let wasEmpty = (length loc = 0);
          loc1 = loc @ collapse_children nd chs 0;
          loc2 = (if \<not> wasEmpty then sort_by byPos loc1 else loc1);
          loc3 = loc2 @ map (\<lambda>d. move d (- offset)) (drop start add)
      in DecorationSet len (int (length loc3)) (Arr loc3) [])"

text \<open>
  The \<open>while (decI < decorations.length)\<close> loop of \<open>updateInner\<close> for one child, over
  the decorations from \<open>decI\<close> on. \<open>thisLocal\<close> is \<open>this.local\<close>, copied when \<open>local\<close>
  is still \<open>null\<close>.
\<close>

fun distribute :: "Decoration list \<Rightarrow> int \<Rightarrow> int \<Rightarrow> Decoration list \<Rightarrow> Decoration list option
    \<Rightarrow> Decoration list option \<Rightarrow> nat
    \<Rightarrow> Decoration list option \<times> Decoration list option \<times> nat" where
  "distribute [] endPos offset thisLocal loc localDeco decI = (loc, localDeco, decI)"
| "distribute (next # rest) endPos offset thisLocal loc localDeco decI =
     (if dfrom next \<ge> endPos then (loc, localDeco, decI)
      else if dto next > endPos
      then distribute rest endPos offset thisLocal
             (Some (insertSorted (case loc of None \<Rightarrow> thisLocal | Some l \<Rightarrow> l) (move next (- offset))))
             localDeco (decI + 1)
      else distribute rest endPos offset thisLocal loc
             (Some ((case localDeco of None \<Rightarrow> [] | Some l \<Rightarrow> l) @ [next])) (decI + 1))"

text \<open>
  The inner \<open>for (; i < end; i++)\<close> loop of \<open>appendDecorations\<close> over one chunk: it
  returns \<open>local\<close> and \<open>add\<close>.
\<close>

fun place_chunk :: "Decoration list \<Rightarrow> int \<Rightarrow> int \<Rightarrow> Decoration list \<Rightarrow> Decoration list
    \<Rightarrow> Decoration list \<times> Decoration list" where
  "place_chunk [] endPos offset loc add = (loc, add)"
| "place_chunk (deco # rest) endPos offset loc add =
     (if dto deco > endPos
      then place_chunk rest endPos offset (insertSorted loc (move deco (- offset))) add
      else place_chunk rest endPos offset loc (add @ [deco]))"

text \<open>
  The loop of \<open>rebalanceChildren\<close> that extends \<open>joinTo\<close> over the following
  children; it returns \<open>joinTo\<close>, \<open>size\<close> and \<open>length\<close>.
\<close>

fun join_run :: "DecorationSet list \<Rightarrow> int \<Rightarrow> nat \<Rightarrow> int \<Rightarrow> int \<Rightarrow> nat \<times> int \<times> int" where
  "join_run [] childSize joinTo sz len = (joinTo, sz, len)"
| "join_run (next # rest) childSize joinTo sz len =
     (let totalSize = sz + set_size next in
      if totalSize > childSize then (joinTo, sz, len)
      else join_run rest childSize (joinTo + 1) totalSize (len + set_length next))"

text \<open>
  In \<open>rebalanceChildren\<close> the parameter \<open>local\<close> is the caller's array until the
  statement \<open>if (local.length == 0) local = noDecorations\<close> rebinds it; from then on
  (\<open>detached\<close>) the function reads and writes the shared array \<open>noDecorations\<close>, and the
  caller's array stays empty.

  The loop that takes the local decorations lying inside the new wrapper node out of
  \<open>local\<close>. It splices them out one by one; when the caller's array becomes empty the
  variable is rebound and the loop goes on from index 0 of \<open>noDecorations\<close>. It returns
  \<open>noDecorations\<close>, the caller's array, whether the variable is rebound, and
  \<open>joinedLocals\<close>.
\<close>

definition fits :: "int \<Rightarrow> int \<Rightarrow> Decoration \<Rightarrow> bool" where
  "fits off len deco = (dfrom deco \<ge> off \<and> dto deco \<le> off + len)"

definition take_joined :: "Decoration list \<Rightarrow> Decoration list \<Rightarrow> bool \<Rightarrow> int \<Rightarrow> int
    \<Rightarrow> Decoration list \<times> Decoration list \<times> bool \<times> Decoration list" where
  "take_joined nd loc detached off len =
     (if detached
      then (filter (\<lambda>d. \<not> fits off len d) nd, loc, True,
            map (\<lambda>d. move d (- off)) (filter (fits off len) nd))
      else
        (let kept = filter (\<lambda>d. \<not> fits off len d) loc;
             joined = map (\<lambda>d. move d (- off)) (filter (fits off len) loc)
         in if length loc \<noteq> 0 \<and> length kept = 0
            then (filter (\<lambda>d. \<not> fits off len d) nd, [], True,
                  joined @ map (\<lambda>d. move d (- off)) (filter (fits off len) nd))
            else (nd, kept, False, joined)))"

text \<open>
  The loop \<open>for (j ...) insertSorted(local, child.local[j].move(off))\<close> that unwraps a
  child. When \<open>local\<close> is rebound and \<open>child.local\<close> is \<open>noDecorations\<close> too, the loop
  inserts into the array it runs over, and ends only if that array is empty; \<open>None\<close> is a
  loop that has not ended after \<open>n\<close> turns.
\<close>

fun unwrap_live :: "nat \<Rightarrow> Decoration list \<Rightarrow> nat \<Rightarrow> int \<Rightarrow> Decoration list option" where
  "unwrap_live 0 nd j off = None"
| "unwrap_live (Suc n) nd j off =
     (if j < length nd then unwrap_live n (insertSorted nd (move (nd ! j) off)) (j + 1) off
      else Some nd)"

definition unwrap_locals :: "nat \<Rightarrow> Decoration list \<Rightarrow> Decoration list \<Rightarrow> bool \<Rightarrow> DecorationArray
    \<Rightarrow> int \<Rightarrow> (Decoration list \<times> Decoration list) option" where
  "unwrap_locals n nd loc detached childLocal off =
     (if detached then
        (case childLocal of
           Arr ds \<Rightarrow> Some (foldl (\<lambda>l d. insertSorted l (move d off)) nd ds, loc)
         | NoDecorations \<Rightarrow> map_option (\<lambda>nd'. (nd', loc)) (unwrap_live n nd 0 off))
      else Some (nd, foldl (\<lambda>l d. insertSorted l (move d off)) loc (the_array nd childLocal)))"


text \<open>
  \<open>updateInner\<close>, \<open>appendDecorations\<close>, \<open>rebalanceChildren\<close> and \<open>update\<close> call
  each other, and \<open>rebalanceChildren\<close> calls \<open>update\<close> on a node it has just built, so
  the recursion does not follow the tree. \<open>updateInner\<close> takes a bound \<open>n\<close> on the depth
  of nested calls, which also bounds the turns of the two loops that are not over a list;
  the functions it calls take the \<open>updateInner\<close> of the next depth as \<open>inner\<close>.
  \<open>None\<close> is a computation that has not returned within the bound, \<open>Some (Inl e)\<close> one
  that threw \<open>e\<close>. Each function takes the contents \<open>nd\<close> of \<open>noDecorations\<close> and
  returns the new contents with its result.
\<close>

definition bind_res :: "(error + 'a) option \<Rightarrow> ('a \<Rightarrow> (error + 'b) option) \<Rightarrow> (error + 'b) option" where
  "bind_res m f = (case m of None \<Rightarrow> None | Some (Inl e) \<Rightarrow> Some (Inl e) | Some (Inr x) \<Rightarrow> f x)"

text \<open>
  \<open>updateInner\<close> returns the set and whether it is \<open>this\<close> itself (the caller tests
  \<open>newChild != child\<close>).
\<close>

type_synonym updateInner_fn =
  "Decoration list \<Rightarrow> DecorationSet \<Rightarrow> DecorationArray \<Rightarrow> DecorationFilter option
     \<Rightarrow> int \<Rightarrow> int \<Rightarrow> int \<Rightarrow> int
     \<Rightarrow> (error + (Decoration list \<times> DecorationSet \<times> bool)) option"

type_synonym update_fn =
  "Decoration list \<Rightarrow> DecorationSet \<Rightarrow> DecorationArray \<Rightarrow> DecorationFilter option
     \<Rightarrow> int option \<Rightarrow> int option \<Rightarrow> (error + (Decoration list \<times> DecorationSet)) option"

text \<open>\<open>update\<close>; an argument left out is \<open>NoDecorations\<close> or \<open>None\<close>.\<close>

definition update_with :: "updateInner_fn \<Rightarrow> update_fn" where
  "update_with inner nd this decorations filt filterFrom filterTo =
     (let decs = the_array nd decorations;
          maxLen = foldl (\<lambda>l d. max l (dto d)) (set_length this) decs
      in bind_res
           (inner nd this
              (if length decs \<noteq> 0 then Arr (sort_by byPos decs) else decorations)
              filt
              (case filterFrom of None \<Rightarrow> 0 | Some x \<Rightarrow> x)
              (case filterTo of None \<Rightarrow> set_length this | Some x \<Rightarrow> x)
              0 maxLen)
           (\<lambda>(nd1, s, same). Some (Inr (nd1, s))))"

text \<open>The variables of the loop over the children in \<open>updateInner\<close>.\<close>

datatype ChildLoop = ChildLoop (cl_local: "Decoration list option")
  (cl_children: "DecorationSet list option") (cl_size: int) (cl_decI: nat) (cl_pos: int)

text \<open>The loop over \<open>this.children\<close> in \<open>updateInner\<close>, from child \<open>i\<close> on.\<close>

fun update_children :: "updateInner_fn \<Rightarrow> Decoration list \<Rightarrow> DecorationSet \<Rightarrow> DecorationArray
      \<Rightarrow> DecorationFilter option \<Rightarrow> int \<Rightarrow> int \<Rightarrow> int \<Rightarrow> DecorationSet list \<Rightarrow> nat \<Rightarrow> ChildLoop
      \<Rightarrow> (error + (Decoration list \<times> ChildLoop)) option" where
  "update_children inner nd this decorations filt filterFrom filterTo offset [] i st =
     Some (Inr (nd, st))"
| "update_children inner nd this decorations filt filterFrom filterTo offset (child # rest) i st =
     (let pos = cl_pos st;
          endPos = pos + set_length child in
      case distribute (drop (cl_decI st) (the_array nd decorations)) endPos offset
             (the_array nd (local this)) (cl_local st) None (cl_decI st) of
        (loc, localDeco, decI) \<Rightarrow>
          bind_res
            (if localDeco \<noteq> None \<or> (filt \<noteq> None \<and> filterFrom \<le> endPos \<and> filterTo \<ge> pos)
             then inner nd child
                    (case localDeco of None \<Rightarrow> NoDecorations | Some l \<Rightarrow> Arr l)
                    filt filterFrom filterTo pos (set_length child)
             else Some (Inr (nd, child, True)))
            (\<lambda>(nd1, newChild, same).
               update_children inner nd1 this decorations filt filterFrom filterTo offset rest (i + 1)
                 (ChildLoop loc
                    (if \<not> same
                     then Some ((case cl_children st of
                                   None \<Rightarrow> take i (children this)
                                 | Some c \<Rightarrow> c) @ [newChild])
                     else (case cl_children st of None \<Rightarrow> None | Some c \<Rightarrow> Some (c @ [newChild])))
                    (cl_size st + set_size newChild) decI endPos)))"

text \<open>
  The outer loop of \<open>appendDecorations\<close>, from index \<open>i\<close> on, at most \<open>n\<close> turns. It
  returns \<open>local\<close> and \<open>children\<close>, which it changes in place. \<open>decorations[end]\<close> at
  a negative index is \<open>undefined\<close>.
\<close>

primrec appendDecorations :: "nat \<Rightarrow> updateInner_fn \<Rightarrow> Decoration list \<Rightarrow> Decoration list
      \<Rightarrow> DecorationSet list \<Rightarrow> DecorationArray \<Rightarrow> nat \<Rightarrow> int \<Rightarrow> int \<Rightarrow> int \<Rightarrow> int
      \<Rightarrow> (error + (Decoration list \<times> Decoration list \<times> DecorationSet list)) option" where
  "appendDecorations 0 inner nd loc chs decorations i offset len pos childSize = None"
| "appendDecorations (Suc n) inner nd loc chs decorations i offset len pos childSize =
     (let decs = the_array nd decorations in
      if i < length decs then
        (let end = min (int i + childSize) (int (length decs)) in
         if end < 0 then Some (Inl TypeError)
         else
           (let endPos = (if end = int (length decs) then offset + len else dfrom (decs ! nat end));
                i' = max i (nat end)
            in case place_chunk (take (i' - i) (drop i decs)) endPos offset loc [] of
                 (loc', add) \<Rightarrow>
                   if length add \<noteq> 0
                   then bind_res
                          (inner nd empty (Arr add) None 0 0 pos (endPos - pos))
                          (\<lambda>(nd1, child, same).
                             appendDecorations n inner nd1 loc' (chs @ [child]) decorations i'
                               offset len endPos childSize)
                   else appendDecorations n inner nd loc' chs decorations i' offset len pos
                          childSize))
      else Some (Inr (nd, loc, chs)))"

text \<open>
  The loop of \<open>rebalanceChildren\<close>, from the variables \<open>i\<close> and \<open>off\<close> on, at most
  \<open>n\<close> turns. It returns \<open>local\<close> (the caller's array) and \<open>children\<close>, which it
  changes in place. \<open>children[i]\<close> at index \<open>-1\<close> is \<open>undefined\<close>.
\<close>

primrec rebalanceChildren :: "nat \<Rightarrow> update_fn \<Rightarrow> Decoration list \<Rightarrow> Decoration list \<Rightarrow> bool
      \<Rightarrow> DecorationSet list \<Rightarrow> int \<Rightarrow> int \<Rightarrow> int
      \<Rightarrow> (error + (Decoration list \<times> Decoration list \<times> DecorationSet list)) option" where
  "rebalanceChildren 0 upd nd loc detached chs childSize i off = None"
| "rebalanceChildren (Suc n) upd nd loc detached chs childSize i off =
     (if i < int (length chs) then
        (if i < 0 then Some (Inl TypeError)
         else
           (let k = nat i; child = chs ! k in
            if set_size child = 0 \<and> (i > 0 \<or> length chs = 1) then
              (let chs1 = take k chs @ drop (k + 1) chs;
                   chs2 = (if i - 1 \<ge> 0
                           then chs1[k - 1 := grow (chs1 ! (k - 1)) (set_length child)]
                           else chs1)
               in rebalanceChildren n upd nd loc detached chs2 childSize (i - 1) off)
            else if set_size child > shift_left childSize 1
                    \<and> int (length (the_array nd (local child))) < shift_right (set_length child) 1 then
              (case unwrap_locals n nd loc detached (local child) off of
                 None \<Rightarrow> None
               | Some (nd1, loc1) \<Rightarrow>
                   rebalanceChildren n upd nd1 loc1 detached
                     (take k chs @ children child @ drop (k + 1) chs) childSize i off)
            else if length (children child) = 0 \<and> i < int (length chs) - 1
                    \<and> set_size (chs ! (k + 1)) + set_size child \<le> BASE_NODE_SIZE
                    \<and> length (children (chs ! (k + 1))) = 0 then
              (let next = chs ! (k + 1);
                   joined = DecorationSet (set_length child + set_length next)
                              (set_size child + set_size next)
                              (Arr (the_array nd (local child)
                                    @ map (\<lambda>d. move d (set_length child)) (the_array nd (local next))))
                              []
               in rebalanceChildren n upd nd loc detached
                    (take k chs @ [joined] @ drop (k + 2) chs) childSize i
                    (off + (set_length child + set_length next)))
            else
              (case (if set_size child < shift_right childSize 1
                     then join_run (drop (k + 1) chs) childSize (k + 1) (set_size child)
                            (set_length child)
                     else (k + 1, set_size child, set_length child)) of
                 (joinTo, sz, len) \<Rightarrow>
                   if joinTo > k + 1 then
                     (case take_joined nd loc detached off len of
                        (nd1, loc1, detached1, joinedLocals) \<Rightarrow>
                          bind_res
                            (if length joinedLocals \<noteq> 0
                             then upd nd1
                                    (DecorationSet len sz NoDecorations (take (joinTo - k) (drop k chs)))
                                    (Arr (sort_by byPos joinedLocals)) None None None
                             else Some (Inr (nd1,
                                    DecorationSet len sz NoDecorations (take (joinTo - k) (drop k chs)))))
                            (\<lambda>(nd2, joined).
                               rebalanceChildren n upd nd2 loc1 detached1
                                 (take k chs @ [joined] @ drop joinTo chs) childSize (int joinTo)
                                 (off + len)))
                   else rebalanceChildren n upd nd loc detached chs childSize (i + 1)
                          (off + set_length child))))
      else Some (Inr (nd, loc, chs)))"

text \<open>The body of \<open>updateInner\<close> after the loop over the children.\<close>

definition finish_update :: "nat \<Rightarrow> updateInner_fn \<Rightarrow> DecorationSet \<Rightarrow> DecorationArray \<Rightarrow> int \<Rightarrow> int
      \<Rightarrow> Decoration list \<Rightarrow> ChildLoop
      \<Rightarrow> (error + (Decoration list \<times> DecorationSet \<times> bool)) option" where
  "finish_update n inner this decorations offset len nd1 st =
     (let decs = the_array nd1 decorations;
          thisLocal = the_array nd1 (local this) in
      if cl_local st = None \<and> cl_children st = None \<and> cl_decI st = length decs
      then Some (Inr (nd1, this, True))
      else
        (let sz = cl_size st
                  + int (length (case cl_local st of None \<Rightarrow> thisLocal | Some l \<Rightarrow> l))
                  + int (length decs) - int (cl_decI st) in
         if sz \<le> BASE_NODE_SIZE
         then Some (Inr (nd1,
                collapseSet nd1 (case cl_children st of None \<Rightarrow> children this | Some c \<Rightarrow> c)
                  (case cl_local st of None \<Rightarrow> thisLocal | Some l \<Rightarrow> l)
                  decs (cl_decI st) offset len,
                False))
         else
           (let childSize = max BASE_NODE_SIZE (shift_right sz BASE_NODE_SIZE_SHIFT) in
            bind_res
              (if cl_decI st < length decs
               then bind_res
                      (appendDecorations n inner nd1
                         (case cl_local st of None \<Rightarrow> thisLocal | Some l \<Rightarrow> l)
                         (case cl_children st of None \<Rightarrow> children this | Some c \<Rightarrow> c)
                         decorations (cl_decI st) offset len (cl_pos st) childSize)
                      (\<lambda>(nd2, loc2, chs2). Some (Inr (nd2, Some loc2, Some chs2)))
               else Some (Inr (nd1, cl_local st, cl_children st)))
              (\<lambda>(nd2, loc2, chs2).
                 bind_res
                   (case chs2 of
                      None \<Rightarrow> Some (Inr (nd2, loc2, None))
                    | Some chs \<Rightarrow>
                        bind_res
                          (rebalanceChildren n (update_with inner) nd2
                             (case loc2 of None \<Rightarrow> the_array nd2 (local this) | Some l \<Rightarrow> l)
                             False chs childSize 0 0)
                          (\<lambda>(nd3, loc3, chs3). Some (Inr (nd3, Some loc3, Some chs3))))
                   (\<lambda>(nd3, loc3, chs3).
                      Some (Inr (nd3,
                        DecorationSet len sz
                          (case loc3 of None \<Rightarrow> local this | Some l \<Rightarrow> Arr l)
                          (case chs3 of None \<Rightarrow> children this | Some c \<Rightarrow> c),
                        False)))))))"

primrec updateInner :: "nat \<Rightarrow> updateInner_fn" where
  "updateInner 0 nd this decorations filt filterFrom filterTo offset len = None"
| "updateInner (Suc n) nd this decorations filt filterFrom filterTo offset len =
     bind_res
       (update_children (updateInner n) nd this decorations filt filterFrom filterTo offset
          (children this) 0
          (ChildLoop (filterDecorations (the_array nd (local this)) filt filterFrom filterTo offset)
             None 0 0 offset))
       (\<lambda>(nd1, st). finish_update n (updateInner n) this decorations offset len nd1 st)"

definition update :: "nat \<Rightarrow> update_fn" where
  "update n = update_with (updateInner n)"

text \<open>\<open>DecorationSet.of\<close>, for one decoration or an array of them.\<close>

datatype OneOrMany = One Decoration | Many "Decoration list"

fun of_decorations :: "nat \<Rightarrow> Decoration list \<Rightarrow> OneOrMany
    \<Rightarrow> (error + (Decoration list \<times> DecorationSet)) option" where
  "of_decorations n nd (One d) = update n nd empty (Arr [d]) None None None"
| "of_decorations n nd (Many ds) =
     (if length ds \<noteq> 0 then update n nd empty (Arr ds) None None None
      else Some (Inr (nd, empty)))"

section \<open>The invariants of a set, and two sets\<close>

text \<open>
  The invariants of the data model, checked at every node: P1 (\<open>size\<close> is the number of
  local decorations plus the sizes of the children), P2 (\<open>local\<close> is sorted by
  \<open>byPos\<close>), P3 (every local decoration lies in \<open>[0, length]\<close>), P4 (the lengths of the
  children are not negative and sum to at most \<open>length\<close>) and P5 (a range is not
  empty, a point is).
\<close>

fun sizes_ok :: "Decoration list \<Rightarrow> DecorationSet \<Rightarrow> bool" where
  "sizes_ok nd (DecorationSet len sz loc chs) =
     (sz = int (length (the_array nd loc)) + sum_list (map set_size chs)
      \<and> list_all (sizes_ok nd) chs)"

fun locals_sorted :: "Decoration list \<Rightarrow> DecorationSet \<Rightarrow> bool" where
  "locals_sorted nd (DecorationSet len sz loc chs) =
     (sorted_wrt (\<lambda>a b. byPos a b \<le> 0) (the_array nd loc) \<and> list_all (locals_sorted nd) chs)"

definition in_bounds :: "int \<Rightarrow> Decoration \<Rightarrow> bool" where
  "in_bounds len d = (0 \<le> dfrom d \<and> dfrom d \<le> dto d \<and> dto d \<le> len)"

fun locals_in_bounds :: "Decoration list \<Rightarrow> DecorationSet \<Rightarrow> bool" where
  "locals_in_bounds nd (DecorationSet len sz loc chs) =
     (list_all (in_bounds len) (the_array nd loc) \<and> list_all (locals_in_bounds nd) chs)"

fun children_fit :: "DecorationSet \<Rightarrow> bool" where
  "children_fit (DecorationSet len sz loc chs) =
     (list_all (\<lambda>c. 0 \<le> set_length c) chs \<and> sum_list (map set_length chs) \<le> len
      \<and> list_all children_fit chs)"

definition well_formed :: "Decoration \<Rightarrow> bool" where
  "well_formed d = (if is_range d then dfrom d < dto d else dfrom d = dto d)"

fun decorations_well_formed :: "Decoration list \<Rightarrow> DecorationSet \<Rightarrow> bool" where
  "decorations_well_formed nd (DecorationSet len sz loc chs) =
     (list_all well_formed (the_array nd loc) \<and> list_all (decorations_well_formed nd) chs)"

definition invariants :: "Decoration list \<Rightarrow> DecorationSet \<Rightarrow> bool" where
  "invariants nd s =
     (sizes_ok nd s \<and> locals_sorted nd s \<and> locals_in_bounds nd s \<and> children_fit s
      \<and> decorations_well_formed nd s)"

definition point_at :: "int \<Rightarrow> Decoration" where
  "point_at pos = point_deco pos (DecorationPointSpec None None)"

definition range_at :: "int \<Rightarrow> int \<Rightarrow> Decoration" where
  "range_at from to = Decoration from to (RangeDesc (DecorationRangeSpec None None None None None None))"

text \<open>The set that \<open>DecorationSet.of\<close> builds from the 33 points at 0, 1, ..., 32.\<close>

definition points_0_32 :: DecorationSet where
  "points_0_32 = DecorationSet 32 33 (Arr [])
     [DecorationSet 32 32 (Arr (map point_at [0..31])) [],
      DecorationSet 0 1 (Arr [point_at 0]) []]"

text \<open>What \<open>update\<close> makes of it with a filter that drops everything in the window
  \<open>[0, 0]\<close>.\<close>

definition points_filtered :: DecorationSet where
  "points_filtered = DecorationSet 32 32 (Arr (map point_at [1..31] @ [point_at (- 32)])) []"

definition drop_all :: DecorationFilter where
  "drop_all from to sp = False"

lemma of_points_0_32:
  "of_decorations 10 [] (Many (map point_at [0..32])) = Some (Inr ([], points_0_32))"
  by code_simp

lemma invariants_points_0_32: "invariants [] points_0_32"
  by code_simp

lemma update_points_0_32:
  "update 10 [] points_0_32 NoDecorations (Some drop_all) (Some 0) (Some 0)
     = Some (Inr ([], points_filtered))"
  by code_simp

text \<open>
  A set that satisfies the invariants and has two small neighbours, the first of them not
  a leaf, before a child of more than \<open>2 * 32\<close> decorations with a local decoration of
  its own.
\<close>

definition leaf_32 :: DecorationSet where
  "leaf_32 = DecorationSet 400 32 (Arr (map point_at [0..31])) []"

definition leaf_31 :: DecorationSet where
  "leaf_31 = DecorationSet 100 31 (Arr (map point_at [0..30])) []"

definition big_child :: DecorationSet where
  "big_child = DecorationSet 1000 65 (Arr [range_at 390 410]) [leaf_32, leaf_32]"

definition small_node :: DecorationSet where
  "small_node = DecorationSet 10 1 (Arr []) [DecorationSet 10 1 (Arr [point_at 5]) []]"

definition small_leaf :: DecorationSet where
  "small_leaf = DecorationSet 10 1 (Arr [point_at 5]) []"

definition uneven_set :: DecorationSet where
  "uneven_set = DecorationSet 1120 99 (Arr [range_at 8 12])
     [small_node, small_leaf, leaf_31, big_child]"

text \<open>What \<open>update\<close> makes of it when the point at 16 is added.\<close>

definition uneven_updated :: DecorationSet where
  "uneven_updated = DecorationSet 1120 100 (Arr [])
     [DecorationSet 20 4 (Arr [point_at (- 5), point_at (- 4), point_at 5, range_at 8 12]) [],
      leaf_31, leaf_32, leaf_32]"

lemma invariants_uneven_set: "invariants [] uneven_set"
  by code_simp

lemma update_uneven_set:
  "update 10 [] uneven_set (Arr [point_at 16]) None None None
     = Some (Inr ([range_at 410 430], uneven_updated))"
  by code_simp

subsection \<open>An array of 1056 decorations\<close>

text \<open>
  \<open>big\<close> is an array of 1056 decorations whose \<open>from\<close> are 0, 1, ..., 1055, given as
  32 runs of 33: ranges that end at 2000, points, and the range from 66 to 101.
  \<open>update\<close> on the empty set takes 33 for \<open>childSize\<close> with it, so
  \<open>appendDecorations\<close> cuts the array into these runs. \<open>big_appended_local\<close> and
  \<open>big_appended\<close> are \<open>local\<close> and \<open>children\<close> when \<open>appendDecorations\<close> returns,
  \<open>big_updated\<close> is the set that \<open>update\<close> returns.
\<close>

definition far :: "int \<Rightarrow> Decoration" where
  "far j = range_at j 2000"

definition chunks :: "Decoration list list" where
  "chunks = [map far [0..17] @ map point_at [18..32],
             map far [33..47] @ map point_at [48..65],
             range_at 66 101 # map point_at [67..98],
             map far [99..116] @ map point_at [117..131],
             map far [132..146] @ map point_at [147..164]]
            @ map (\<lambda>k. map point_at [165 + 33 * int k .. 197 + 33 * int k]) [0..<27]"

definition big :: "Decoration list" where
  "big = concat chunks"

definition tail_15 :: DecorationSet where
  "tail_15 = DecorationSet 33 15 (Arr (map point_at [18..32])) []"

definition tail_18 :: DecorationSet where
  "tail_18 = DecorationSet 33 18 (Arr (map point_at [15..32])) []"

definition points_1_32 :: DecorationSet where
  "points_1_32 = DecorationSet 33 32 (Arr (map point_at [1..32])) []"

definition full_chunk :: "int \<Rightarrow> DecorationSet" where
  "full_chunk len = DecorationSet len 33 (Arr [])
     [DecorationSet 32 32 (Arr (map point_at [0..31])) [],
      DecorationSet (len - 32) 1 (Arr [point_at 0]) []]"

definition big_appended_local :: "Decoration list" where
  "big_appended_local = map far ([0..17] @ [33..47]) @ [range_at 66 101]
     @ map far ([99..116] @ [132..146])"

definition big_appended :: "DecorationSet list" where
  "big_appended = [tail_15, tail_18, points_1_32, tail_15, tail_18]
     @ replicate 26 (full_chunk 33) @ [full_chunk 977]"

definition big_updated :: DecorationSet where
  "big_updated = DecorationSet 2000 1056
     (Arr (map far ([0..17] @ [33..47] @ [99..116] @ [132..146])))
     ([DecorationSet 66 33 NoDecorations [tail_15, tail_18],
       points_1_32,
       DecorationSet 66 34 (Arr [range_at 0 35]) [tail_15, tail_18]]
      @ replicate 26 (full_chunk 33) @ [full_chunk 977])"

text \<open>
  The loop of \<open>appendDecorations\<close> on an array that is given run by run: \<open>endPos\<close> is
  the \<open>from\<close> of the first decoration of the next run, or \<open>fin\<close> after the last run.
  It is the same loop when every run has \<open>childSize\<close> decorations
  (\<open>appendDecorations_chunks\<close>).
\<close>

fun append_chunks :: "updateInner_fn \<Rightarrow> Decoration list \<Rightarrow> Decoration list \<Rightarrow> DecorationSet list
    \<Rightarrow> Decoration list list \<Rightarrow> int \<Rightarrow> int \<Rightarrow> int
    \<Rightarrow> (error + (Decoration list \<times> Decoration list \<times> DecorationSet list)) option" where
  "append_chunks inner nd loc chs [] offset fin pos = Some (Inr (nd, loc, chs))"
| "append_chunks inner nd loc chs (c # cs) offset fin pos =
     (let endPos = (case cs of [] \<Rightarrow> fin | c' # _ \<Rightarrow> dfrom (hd c')) in
      case place_chunk c endPos offset loc [] of
        (loc', add) \<Rightarrow>
          if length add \<noteq> 0
          then bind_res (inner nd empty (Arr add) None 0 0 pos (endPos - pos))
                 (\<lambda>(nd1, child, same). append_chunks inner nd1 loc' (chs @ [child]) cs offset fin endPos)
          else append_chunks inner nd loc' chs cs offset fin pos)"

lemma appendDecorations_chunks:
  "\<forall>c \<in> set (done @ rest). length c = m \<Longrightarrow> m > 0 \<Longrightarrow> length rest < n \<Longrightarrow>
   appendDecorations n inner nd loc chs (Arr (concat (done @ rest))) (length (concat done))
       offset len pos (int m)
     = append_chunks inner nd loc chs rest offset (offset + len) pos"
proof (induction rest arbitrary: n "done" nd loc chs pos)
  case Nil
  then obtain n' where n: "n = Suc n'" by (cases n) auto
  show ?case unfolding n by simp
next
  case (Cons c cs)
  from Cons.prems(3) obtain n' where n: "n = Suc n'" and n': "length cs < n'" by (cases n) auto
  let ?decs = "concat (done @ c # cs)"
  let ?i = "length (concat done)"
  let ?endPos = "case cs of [] \<Rightarrow> offset + len | c' # _ \<Rightarrow> dfrom (hd c')"
  have c: "length c = m" using Cons.prems(1) by simp
  have len: "length ?decs = ?i + m + length (concat cs)" using c by simp
  have ih: "appendDecorations n' inner nd1 loc1 chs1 (Arr ?decs) (?i + m) offset len pos1 (int m)
       = append_chunks inner nd1 loc1 chs1 cs offset (offset + len) pos1" for nd1 loc1 chs1 pos1
    using Cons.IH[of "done @ [c]" n' nd1 loc1 chs1 pos1] Cons.prems(1,2) n' c by simp
  have A: "?i < length ?decs" using len Cons.prems(2) by simp
  have B: "min (int ?i + int m) (int (length ?decs)) = int (?i + m)" using len by simp
  have B0: "\<not> int (?i + m) < 0" by simp
  have C: "(if int (?i + m) = int (length ?decs) then offset + len
            else dfrom (?decs ! nat (int (?i + m)))) = ?endPos"
  proof (cases cs)
    case Nil
    then show ?thesis using len by simp
  next
    case (Cons c' cs')
    have c': "length c' = m" using Cons.prems(1) Cons by simp
    then have ne: "c' \<noteq> []" using Cons.prems(2) by auto
    have lt: "?i + m < length ?decs" using len Cons c' Cons.prems(2) by simp
    have nth: "?decs ! (?i + m) = hd c'"
      using c Cons ne by (simp add: nth_append hd_conv_nth)
    have "nat (int (?i + m)) = ?i + m" by simp
    with lt nth Cons show ?thesis by (simp only: int_int_eq nat_neq_iff if_False list.case) simp
  qed
  have D: "max ?i (nat (int (?i + m))) = ?i + m" "?i + m - ?i = m" by simp_all
  have tk: "take m (drop ?i ?decs) = c" using c by simp
  show ?case
    unfolding n appendDecorations.simps the_array.simps Let_def B D tk C ih append_chunks.simps
    by (simp only: A B0 if_True if_False)
qed

text \<open>
  An array whose neighbours are in the order of \<open>byPos\<close> is left as it is by the sort;
  \<open>chunks_sorted\<close> checks the neighbours run by run.
\<close>

fun adjacent_sorted :: "Decoration list \<Rightarrow> bool" where
  "adjacent_sorted [] = True"
| "adjacent_sorted [x] = True"
| "adjacent_sorted (x # y # ys) = (byPos x y \<le> 0 \<and> adjacent_sorted (y # ys))"

fun chunks_sorted :: "Decoration list list \<Rightarrow> bool" where
  "chunks_sorted [] = True"
| "chunks_sorted [c] = adjacent_sorted c"
| "chunks_sorted (c # c' # cs) = (adjacent_sorted (c @ take 1 c') \<and> chunks_sorted (c' # cs))"

lemma adjacent_sorted_tl: "adjacent_sorted (x # xs) \<Longrightarrow> adjacent_sorted xs"
  by (cases xs) auto

lemma sort_by_append_sorted:
  "adjacent_sorted (xs @ take 1 ys) \<Longrightarrow> sort_by byPos ys = ys \<Longrightarrow> sort_by byPos (xs @ ys) = xs @ ys"
proof (induction xs)
  case Nil
  then show ?case by simp
next
  case (Cons x xs)
  from Cons.prems(1) have "adjacent_sorted (xs @ take 1 ys)"
    using adjacent_sorted_tl[of x "xs @ take 1 ys"] by simp
  from Cons.IH[OF this Cons.prems(2)] have s: "sort_by byPos (x # xs @ ys) = insort_by byPos x (xs @ ys)"
    by (simp add: sort_by_def)
  show ?case
  proof (cases "xs @ ys")
    case Nil
    with s show ?thesis by simp
  next
    case (Cons z zs)
    then obtain zs' where "xs @ take 1 ys = z # zs'" by (cases xs; cases ys) auto
    with Cons.prems(1) have "byPos x z \<le> 0" by simp
    with s Cons show ?thesis by simp
  qed
qed

lemma sort_by_adjacent_sorted: "adjacent_sorted xs \<Longrightarrow> sort_by byPos xs = xs"
  using sort_by_append_sorted[of xs "[]"] by (simp add: sort_by_def)

lemma sort_by_chunks_sorted:
  "chunks_sorted cs \<Longrightarrow> \<forall>c \<in> set cs. c \<noteq> [] \<Longrightarrow> sort_by byPos (concat cs) = concat cs"
proof (induction cs rule: chunks_sorted.induct)
  case 1
  then show ?case by (simp add: sort_by_def)
next
  case (2 c)
  then show ?case by (simp add: sort_by_adjacent_sorted)
next
  case (3 c c' cs)
  from 3(3) have "c' \<noteq> []" by simp
  then have t: "take 1 (concat (c' # cs)) = take 1 c'" by (cases c') auto
  from 3(2) have a: "adjacent_sorted (c @ take 1 c')" and cs: "chunks_sorted (c' # cs)"
    by simp_all
  from 3(1)[OF cs] 3(3) have s: "sort_by byPos (concat (c' # cs)) = concat (c' # cs)" by simp
  from sort_by_append_sorted[of c "concat (c' # cs)", unfolded t, OF a s] show ?case by simp
qed

lemma length_concat_uniform:
  "\<forall>c \<in> set cs. length c = m \<Longrightarrow> length (concat cs) = m * length cs"
  by (induction cs) auto

lemma foldl_concat_chunks:
  "foldl f a (concat cs) = foldl (\<lambda>b c. foldl f b c) a cs"
  by (induction cs arbitrary: a) auto

lemma list_all_concat_chunks: "list_all P (concat cs) = list_all (list_all P) cs"
  by (induction cs) auto

lemma count_list_concat_chunks:
  "count_list (concat cs) x = sum_list (map (\<lambda>c. count_list c x) cs)"
  by (induction cs) auto

text \<open>How often \<open>collect\<close> hands out a decoration, counted node by node.\<close>

fun count_collected :: "Decoration list \<Rightarrow> DecorationSet \<Rightarrow> int \<Rightarrow> Decoration \<Rightarrow> nat"
  and count_collected_children :: "Decoration list \<Rightarrow> DecorationSet list \<Rightarrow> int \<Rightarrow> Decoration \<Rightarrow> nat" where
  "count_collected nd (DecorationSet len sz loc chs) offset x =
     count_list (map (\<lambda>d. move d offset) (the_array nd loc)) x
       + count_collected_children nd chs offset x"
| "count_collected_children nd [] offset x = 0"
| "count_collected_children nd (child # chs) offset x =
     count_collected nd child offset x + count_collected_children nd chs (offset + set_length child) x"

lemma count_list_collect:
  "count_list (collect nd s offset) x = count_collected nd s offset x"
  "count_list (collect_children nd chs offset) x = count_collected_children nd chs offset x"
  by (induction nd s offset and nd chs offset rule: collect_collect_children.induct) auto

lemma chunks_uniform: "\<forall>c \<in> set chunks. length c = 33"
  by (auto simp: chunks_def)

lemma length_chunks: "length chunks = 32"
  by (simp add: chunks_def)

lemma length_big: "length big = 1056"
  using length_concat_uniform[OF chunks_uniform] by (simp add: big_def length_chunks)

lemma big_not_empty: "big \<noteq> []"
  using length_big by auto

lemma chunks_are_sorted: "chunks_sorted chunks"
  by code_simp

lemma big_sorted: "sort_by byPos big = big"
  unfolding big_def using chunks_uniform by (intro sort_by_chunks_sorted chunks_are_sorted) auto

lemma chunks_max: "foldl (\<lambda>b c. foldl (\<lambda>l d. max l (dto d)) b c) 0 chunks = 2000"
  by code_simp

lemma big_max: "foldl (\<lambda>l d. max l (dto d)) 0 big = 2000"
  unfolding big_def foldl_concat_chunks by (rule chunks_max)

lemma chunks_in_range: "list_all (list_all (\<lambda>d. 0 \<le> dfrom d \<and> dfrom d \<le> dto d)) chunks"
  by code_simp

lemma big_in_range: "list_all (\<lambda>d. 0 \<le> dfrom d \<and> dfrom d \<le> dto d) big"
  unfolding big_def list_all_concat_chunks by (rule chunks_in_range)

lemma count_chunks:
  "sum_list (map (\<lambda>c. count_list c (range_at 66 101)) chunks) = 1"
  "sum_list (map (\<lambda>c. count_list c (range_at 99 134)) chunks) = 0"
  by code_simp+

lemma count_big:
  "count_list big (range_at 66 101) = 1" "count_list big (range_at 99 134) = 0"
  unfolding big_def count_list_concat_chunks by (rule count_chunks)+

lemma count_big_updated:
  "count_list (collect [] big_updated 0) (range_at 66 101) = 0"
  "count_list (collect [] big_updated 0) (range_at 99 134) = 1"
  unfolding count_list_collect by code_simp+

lemma BASE_NODE_SIZE_32: "BASE_NODE_SIZE = 32"
  by (simp add: BASE_NODE_SIZE_def BASE_NODE_SIZE_SHIFT_def shift_left_def toInt32_def)

lemma shift_right_1056: "shift_right 1056 BASE_NODE_SIZE_SHIFT = 33"
  by (simp add: BASE_NODE_SIZE_SHIFT_def shift_right_def toInt32_def)

lemma append_big_chunks:
  "append_chunks (updateInner 39) [] [] [] chunks 0 2000 0
     = Some (Inr ([], big_appended_local, big_appended))"
  by code_simp

lemma append_big:
  "appendDecorations 39 (updateInner 39) [] [] [] (Arr big) 0 0 2000 0 33
     = Some (Inr ([], big_appended_local, big_appended))"
  using appendDecorations_chunks[of "[]" chunks 33 39 "updateInner 39" "[]" "[]" "[]" 0 2000 0]
    chunks_uniform length_chunks append_big_chunks
  by (simp add: big_def)

lemma rebalance_big_appended:
  "rebalanceChildren 39 (update_with (updateInner 39)) [] big_appended_local False big_appended 33 0 0
     = Some (Inr ([], the_array [] (local big_updated), children big_updated))"
  by code_simp

lemma big_updated_parts:
  "DecorationSet 2000 1056 (Arr (the_array [] (local big_updated))) (children big_updated)
     = big_updated"
  by (simp add: big_updated_def)

lemma finish_update_big:
  "finish_update 39 (updateInner 39) empty (Arr big) 0 2000 [] (ChildLoop None None 0 0 0)
     = Some (Inr ([], big_updated, False))"
  unfolding finish_update_def
  by (simp add: length_big BASE_NODE_SIZE_32 shift_right_1056 append_big rebalance_big_appended
        big_updated_parts bind_res_def empty_def big_not_empty)

lemma update_big:
  "update 40 [] empty (Arr big) None None None = Some (Inr ([], big_updated))"
proof -
  have f: "(40::nat) = Suc 39" by simp
  have m: "foldl (\<lambda>l d. max l (dto d)) (set_length empty) big = 2000"
    using big_max by (simp add: empty_def)
  have i: "updateInner 40 [] empty (Arr big) None 0 0 0 2000 = Some (Inr ([], big_updated, False))"
    unfolding f updateInner.simps
    using finish_update_big by (simp add: empty_def filterDecorations_def bind_res_def)
  show ?thesis
    unfolding update_def update_with_def
    using i by (simp add: big_sorted m length_big bind_res_def big_not_empty) (simp add: empty_def)
qed

section \<open>Construction and mapping of single decorations\<close>

text \<open>
  C9. \<open>Decoration.range(from, to, spec)\<close> throws, and what it throws is a RangeError,
  exactly when \<open>from \<ge> to\<close>; otherwise it returns a range decoration with that
  \<open>from\<close>, \<open>to\<close> and spec. \<open>Decoration.point(pos, spec)\<close> has no failing path: for
  every integer \<open>pos\<close> it returns the point decoration at \<open>pos\<close>.
\<close>

theorem range_fails_iff_empty:
  "(isl (range_deco from to s) \<longleftrightarrow> from \<ge> to)
   \<and> (from \<ge> to \<longrightarrow> range_deco from to s = Inl RangeError)
   \<and> (from < to \<longrightarrow> (\<exists>d. range_deco from to s = Inr d \<and> dfrom d = from \<and> dto d = to
                          \<and> dspec d = RangeSpec s))
   \<and> dfrom (point_deco pos p) = pos \<and> dto (point_deco pos p) = pos
   \<and> dspec (point_deco pos p) = PointSpec p"
  by (simp add: range_deco_def point_deco_def dspec_def)

theorem range_fails_iff_empty_witness:
  "range_deco 3 3 (DecorationRangeSpec None None None None None None) = Inl RangeError
   \<and> range_deco 5 2 (DecorationRangeSpec None None None None None None) = Inl RangeError
   \<and> (\<exists>d. range_deco 2 5 (DecorationRangeSpec None None None None None None) = Inr d
          \<and> dfrom d = 2 \<and> dto d = 5)
   \<and> dfrom (point_deco (- 7) (DecorationPointSpec None None)) = - 7"
  using range_fails_iff_empty [of 3 3 "DecorationRangeSpec None None None None None None" 0
          "DecorationPointSpec None None"]
        range_fails_iff_empty [of 5 2 "DecorationRangeSpec None None None None None None" "- 7"
          "DecorationPointSpec None None"]
        range_fails_iff_empty [of 2 5 "DecorationRangeSpec None None None None None None" "- 7"
          "DecorationPointSpec None None"]
  by auto

text \<open>
  C7. Mapping a range decoration through a change list gives the decoration with the
  endpoints \<open>mapPos(from, changes, bias)\<close> and \<open>mapPos(to, changes, endBias)\<close> exactly
  when the first is strictly below the second, and \<open>null\<close> otherwise. Mapping a point
  decoration never gives \<open>null\<close>: the result is the point at
  \<open>mapPos(from, changes, bias)\<close>, whose \<open>from\<close> equals its \<open>to\<close>.
\<close>

theorem map_deco_range_or_dropped:
  "(map_deco (Decoration f t (RangeDesc s)) cs \<noteq> None
      \<longleftrightarrow> mapPos f cs (bias (RangeDesc s)) < mapPos t cs (endBias s))
   \<and> (\<forall>d'. map_deco (Decoration f t (RangeDesc s)) cs = Some d' \<longrightarrow>
          d' = Decoration (mapPos f cs (bias (RangeDesc s))) (mapPos t cs (endBias s))
                 (RangeDesc s))
   \<and> (\<exists>d'. map_deco (Decoration f t (PointDesc p)) cs = Some d' \<and> dfrom d' = dto d'
          \<and> dfrom d' = mapPos f cs (bias (PointDesc p)) \<and> desc d' = PointDesc p)"
  by (auto simp: Let_def)

text \<open>An insertion of three characters at position 10, and a deletion of \<open>[4, 11]\<close>,
  as the state module maps positions through them.\<close>

definition insert3_at_10 :: Change where
  "insert3_at_10 =
     Change 10 10 3 (\<lambda>pos assoc. if pos < 10 \<or> (pos = 10 \<and> assoc < 0) then pos else pos + 3)"

definition delete_4_11 :: Change where
  "delete_4_11 = Change 4 11 0 (\<lambda>pos assoc. if pos \<le> 4 then pos else if pos \<le> 11 then 4 else pos - 7)"

theorem map_deco_range_or_dropped_witness:
  "map_deco (Decoration 5 10 (RangeDesc (DecorationRangeSpec None (Some True) None None None None)))
       [insert3_at_10]
     = Some (Decoration 5 13 (RangeDesc (DecorationRangeSpec None (Some True) None None None None)))
   \<and> map_deco (Decoration 5 10 (RangeDesc (DecorationRangeSpec None None None None None None)))
       [delete_4_11] = None"
proof -
  let ?incl = "DecorationRangeSpec None (Some True) None None None None"
  let ?excl = "DecorationRangeSpec None None None None None None"
  have lt: "mapPos 5 [insert3_at_10] (bias (RangeDesc ?incl))
              < mapPos 10 [insert3_at_10] (endBias ?incl)"
    by (simp add: insert3_at_10_def endBias_def BIG_BIAS_def)
  have ge: "\<not> mapPos 5 [delete_4_11] (bias (RangeDesc ?excl))
              < mapPos 10 [delete_4_11] (endBias ?excl)"
    by (simp add: delete_4_11_def endBias_def BIG_BIAS_def)
  from lt map_deco_range_or_dropped [of 5 10 ?incl "[insert3_at_10]" "DecorationPointSpec None None"]
  obtain d' where d': "map_deco (Decoration 5 10 (RangeDesc ?incl)) [insert3_at_10] = Some d'"
    by blast
  with map_deco_range_or_dropped [of 5 10 ?incl "[insert3_at_10]" "DecorationPointSpec None None"]
  have "d' = Decoration (mapPos 5 [insert3_at_10] (bias (RangeDesc ?incl)))
               (mapPos 10 [insert3_at_10] (endBias ?incl)) (RangeDesc ?incl)"
    by blast
  then have "d' = Decoration 5 13 (RangeDesc ?incl)"
    by (simp add: insert3_at_10_def endBias_def BIG_BIAS_def)
  moreover from ge map_deco_range_or_dropped [of 5 10 ?excl "[delete_4_11]" "DecorationPointSpec None None"]
  have "map_deco (Decoration 5 10 (RangeDesc ?excl)) [delete_4_11] = None"
    by blast
  ultimately show ?thesis using d' by simp
qed

section \<open>The spans cover the range\<close>

text \<open>
  C1. For every list of sets and all integers \<open>from \<le> to\<close>,
  \<open>decoratedSpansInRange(sets, from, to)\<close> returns (it does not throw, and its loops end)
  a sequence of ranges that covers \<open>[from, to]\<close> without gap or overlap: the first range
  starts at \<open>from\<close>, each range is not empty and ends where the next one starts, and the
  last range ends at \<open>to\<close>. When \<open>from = to\<close> the sequence is empty. In particular
  \<open>decoratedSpansInRange([set], 0, set.length)\<close> covers \<open>[0, set.length]\<close>.
\<close>

theorem decoratedSpansInRange_covers:
  assumes "from \<le> to"
  shows "\<exists>rs. decoratedSpansInRange nd sets from to = Inr rs \<and> contiguous from to rs
          \<and> (from < to \<longrightarrow> rs \<noteq> [] \<and> dr_from (hd rs) = from \<and> dr_to (last rs) = to)"
proof -
  from seed_heap_ok[where iters="[]" and heap="[]" and nd=nd and skip="from" and sets=sets]
  obtain heap iters where s: "seed_heap nd from sets [] [] = Inr (heap, iters)"
    and ho: "heap_ok (length iters) heap" and io: "iters_ok iters"
    by (auto simp: heap_ok_def iters_ok_def)
  have "span_inv from to (SpanState heap iters [] [] from 0)"
    using ho io assms by (simp add: span_inv_def)
  from span_loop_ok[OF this, of nd] obtain st where
    l: "span_loop nd from to (SpanState heap iters [] [] from 0) = Inr st" and i: "span_inv from to st"
    by blast
  define rs where "rs = (if sp_pos st < to then sp_result st @ [build (sp_pos st) to (map snd (sp_active st))] else sp_result st)"
  have r: "decoratedSpansInRange nd sets from to = Inr rs"
    by (simp add: decoratedSpansInRange_def s l rs_def)
  have c: "contiguous from to rs"
    using i by (auto simp: span_inv_def rs_def contiguous_snoc)
  have "from < to \<Longrightarrow> rs \<noteq> []" using c by auto
  with c contiguous_ends[OF c] r show ?thesis by auto
qed

definition set_a :: DecorationSet where
  "set_a = DecorationSet 10 1 (Arr [Decoration 0 10 (RangeDesc
      (DecorationRangeSpec None None (Some [(''class'', Some ''a'')]) None None None))]) []"

definition set_b :: DecorationSet where
  "set_b = DecorationSet 15 1 (Arr [Decoration 5 15 (RangeDesc
      (DecorationRangeSpec None None (Some [(''class'', Some ''b'')]) None None None))]) []"

theorem decoratedSpansInRange_covers_witness:
  "(0::int) \<le> 15 \<and> (0::int) < 15
   \<and> (\<exists>rs. decoratedSpansInRange [] [set_a, set_b] 0 15 = Inr rs \<and> contiguous 0 15 rs
          \<and> rs \<noteq> [] \<and> dr_from (hd rs) = 0 \<and> dr_to (last rs) = 15)
   \<and> (\<exists>rs. decoratedSpansInRange [] [set_a] 0 (set_length set_a) = Inr rs
          \<and> contiguous 0 (set_length set_a) rs)"
proof -
  have h: "(0::int) \<le> 15" by simp
  have h': "(0::int) \<le> set_length set_a" by (simp add: set_a_def)
  from decoratedSpansInRange_covers[OF h, of "[]" "[set_a, set_b]"]
       decoratedSpansInRange_covers[OF h', of "[]" "[set_a]"]
  show ?thesis by auto
qed

text \<open>The spans of the two sets above, with the classes of overlapping ranges joined.\<close>

lemma spans_merge_example:
  "decoratedSpansInRange [] [set_a, set_b] 0 15 =
     Inr [DecoratedRange 0 5 None (Some [(''class'', ''a'')]),
          DecoratedRange 5 10 None (Some [(''class'', ''a b'')]),
          DecoratedRange 10 15 None (Some [(''class'', ''b'')])]"
  by code_simp

text \<open>
  Eight ranges that start at 0, two of them with the same fields. The heap hands out the
  later of the two first, at 2, and it is that object that leaves \<open>active\<close>: the
  earlier one stays in front until it is handed out after the range that ends at 5.
\<close>

definition classed :: "string \<Rightarrow> int \<Rightarrow> int \<Rightarrow> Decoration" where
  "classed c from to = Decoration from to (RangeDesc
      (DecorationRangeSpec None None (Some [(''class'', Some c)]) None None None))"

definition set_twins :: DecorationSet where
  "set_twins = DecorationSet 10 8 (Arr [classed ''a'' 0 2, classed ''b'' 0 9, classed ''c'' 0 5,
      classed ''d'' 0 6, classed ''e'' 0 1, classed ''f'' 0 7, classed ''a'' 0 2,
      classed ''g'' 0 8]) []"

lemma spans_twins_example:
  "decoratedSpansInRange [] [set_twins] 0 10 =
     Inr [DecoratedRange 0 1 None (Some [(''class'', ''a b c d e f a g'')]),
          DecoratedRange 1 2 None (Some [(''class'', ''a b c d f a g'')]),
          DecoratedRange 2 5 None (Some [(''class'', ''a b c d f g'')]),
          DecoratedRange 5 6 None (Some [(''class'', ''b d f g'')]),
          DecoratedRange 6 7 None (Some [(''class'', ''b f g'')]),
          DecoratedRange 7 8 None (Some [(''class'', ''b g'')]),
          DecoratedRange 8 9 None (Some [(''class'', ''b'')]),
          DecoratedRange 9 10 None None]"
  by code_simp

section \<open>The heap does not keep its order\<close>

text \<open>
  C2 says that \<open>takeFromHeap\<close> always returns an item that is minimal among the heap's
  items. \<open>addToHeap\<close> takes \<open>index >> 1\<close> for the parent of \<open>index\<close>, while
  \<open>takeFromHeap\<close> takes \<open>2 * index + 1\<close> and \<open>2 * index + 2\<close> for its children, whose
  parent is \<open>(index - 1) >> 1\<close>. After items that end at 0, 1, 5, 2, 6, 7, 3, 8, 9, 10 are
  added in this order, the first three calls return the items ending at 0, 1 and 2, and the
  fourth returns the item ending at 5 while the item ending at 3 is still on the heap.
\<close>

theorem takeFromHeap_not_minimal:
  "addAllToHeap [] (map ending_at [0, 1, 5, 2, 6, 7, 3, 8, 9, 10])
     = Inr (map ending_at [0, 1, 5, 2, 6, 7, 3, 8, 9, 10])
   \<and> takeManyFromHeap 3 (map ending_at [0, 1, 5, 2, 6, 7, 3, 8, 9, 10])
     = Inr (map (Some \<circ> ending_at) [0, 1, 2], map ending_at [5, 6, 3, 8, 9, 7, 10])
   \<and> takeFromHeap (map ending_at [5, 6, 3, 8, 9, 7, 10])
     = Inr (Some (ending_at 5), map ending_at [3, 6, 7, 8, 9, 10])
   \<and> compareHeapable (ending_at 3) (ending_at 5) = Inr (- 2)"
  by code_simp

section \<open>Children the iterator bypasses\<close>

text \<open>
  C8 says that \<open>next(skip)\<close> bypasses every child whose length is less than or equal to
  \<open>skip\<close>. The code compares \<open>skip > next.length\<close>: with \<open>skip = 5\<close> the iterator
  descends into a first child of length 5 and returns the cursor over its decorations.
\<close>

theorem next_descends_when_length_equals_skip:
  "set_length leaf_1 \<le> 5
   \<and> iter_next [] 0 5 [IteratedSet 0 two_leaves (- 1)]
       = Inr (Some (LocalSet 0 (the_array [] (local leaf_1)) (Some 0) 0),
              [IteratedSet 0 leaf_1 0, IteratedSet 5 two_leaves 1])"
  by code_simp

text \<open>
  C8 as amended. When \<open>next(skip)\<close> reaches a child whose length is strictly less than
  what is left of \<open>skip\<close> (\<open>skip\<close> minus the lengths of the children bypassed before it
  in this call), it does not descend into it: it goes on with the next sibling and with
  \<open>skip\<close> reduced by the child's length, and this call and all later calls return the
  same as if any other set of the same length stood in the child's place, so none of its
  decorations is ever yielded. A child whose length is equal to or greater than what is
  left of \<open>skip\<close> is descended into.
\<close>

theorem next_bypasses_shorter_child:
  assumes "\<not> yields_local nd tp" and "cur_index tp < int (length (children (it_set tp)))"
  shows "(set_length (child_at tp) < skip \<longrightarrow>
            iter_next nd self skip (tp # rest)
              = iter_next nd self (skip - set_length (child_at tp)) (past_child tp # rest)
            \<and> (\<forall>c skips. set_length c = set_length (child_at tp) \<longrightarrow>
                  next_calls nd self (skip # skips) (with_child tp c # rest)
                    = next_calls nd self (skip # skips) (tp # rest)))
       \<and> (skip \<le> set_length (child_at tp) \<longrightarrow>
            iter_next nd self skip (tp # rest)
              = iter_next nd self skip (IteratedSet (it_offset tp) (child_at tp) (- 1) # past_child tp # rest))"
proof (intro conjI impI allI)
  assume lt: "set_length (child_at tp) < skip"
  then have gt: "skip > set_length (children (it_set tp) ! nat (cur_index tp))" by (simp add: child_at_def)
  show b: "iter_next nd self skip (tp # rest)
              = iter_next nd self (skip - set_length (child_at tp)) (past_child tp # rest)"
    using iter_next_bypass[OF assms gt] by (simp add: past_child_def child_at_def)
  fix c skips
  assume c: "set_length c = set_length (child_at tp)"
  let ?tp2 = "with_child tp c"
  have i0: "0 \<le> cur_index tp" by (simp add: cur_index_def)
  have n: "nat (cur_index tp) < length (children (it_set tp))" using assms(2) i0 by linarith
  have ci2: "cur_index ?tp2 = cur_index tp" by (simp add: cur_index_def with_child_def)
  have ny2: "\<not> yields_local nd ?tp2" using assms(1) by (simp add: yields_local_def with_child_def replace_child_def)
  have len2: "cur_index ?tp2 < int (length (children (it_set ?tp2)))"
    using assms(2) by (simp add: ci2) (simp add: with_child_def replace_child_def)
  have ch2: "children (it_set ?tp2) ! nat (cur_index ?tp2) = c"
    unfolding ci2 using n by (simp add: with_child_def replace_child_def)
  have gt2: "skip > set_length (children (it_set ?tp2) ! nat (cur_index ?tp2))"
    using lt c by (simp add: ch2)
  have "iter_next nd self skip (?tp2 # rest)
      = iter_next nd self (skip - set_length c)
          (IteratedSet (it_offset ?tp2 + set_length c) (it_set ?tp2) (cur_index ?tp2 + 1) # rest)"
    using iter_next_bypass[OF ny2 len2 gt2, of self rest] by (simp only: ch2)
  moreover have "it_offset ?tp2 = it_offset tp" by (simp add: with_child_def)
  ultimately have b2: "iter_next nd self skip (?tp2 # rest)
      = iter_next nd self (skip - set_length (child_at tp))
          (IteratedSet (it_offset tp + set_length (child_at tp)) (it_set ?tp2) (cur_index tp + 1) # rest)"
    by (simp only: c ci2)
  have es: "entry_sim (past_child tp) (IteratedSet (it_offset tp + set_length (child_at tp)) (it_set ?tp2) (cur_index tp + 1))"
    using i0 n by (simp add: entry_sim_def past_child_def with_child_def replace_child_def nat_add_distrib)
  have sim: "list_all2 entry_sim (past_child tp # rest)
      (IteratedSet (it_offset tp + set_length (child_at tp)) (it_set ?tp2) (cur_index tp + 1) # rest)"
    using es by (simp add: list_all2_refl entry_sim_refl)
  from iter_next_sim[OF sim, of nd self "skip - set_length (child_at tp)"]
  show "next_calls nd self (skip # skips) (?tp2 # rest) = next_calls nd self (skip # skips) (tp # rest)"
    unfolding next_calls.simps b b2
    by (auto split: sum.splits prod.splits dest: next_calls_sim[symmetric])
next
  assume "skip \<le> set_length (child_at tp)"
  then have "\<not> skip > set_length (children (it_set tp) ! nat (cur_index tp))" by (simp add: child_at_def)
  from iter_next_descend[OF assms this] show "iter_next nd self skip (tp # rest)
              = iter_next nd self skip (IteratedSet (it_offset tp) (child_at tp) (- 1) # past_child tp # rest)"
    by (simp add: past_child_def child_at_def)
qed

theorem next_bypasses_shorter_child_witness:
  "\<not> yields_local [] (IteratedSet 0 two_leaves (- 1))
   \<and> cur_index (IteratedSet 0 two_leaves (- 1)) < int (length (children two_leaves))
   \<and> set_length leaf_1 < 6
   \<and> iter_next [] 0 6 [IteratedSet 0 two_leaves (- 1)]
       = Inr (Some (LocalSet 5 (the_array [] (local leaf_2)) (Some 0) 0),
              [IteratedSet 5 leaf_2 0, IteratedSet 10 two_leaves 2])
   \<and> next_calls [] 0 [6, 0, 0] [IteratedSet 0 (DecorationSet 10 2 (Arr []) [DecorationSet 5 0 (Arr []) [], leaf_2]) (- 1)]
       = next_calls [] 0 [6, 0, 0] [IteratedSet 0 two_leaves (- 1)]"
proof -
  let ?tp = "IteratedSet 0 two_leaves (- 1)"
  have a: "\<not> yields_local [] ?tp" by (simp add: yields_local_def two_leaves_def)
  have b: "cur_index ?tp < int (length (children (it_set ?tp)))" by (simp add: cur_index_def two_leaves_def)
  have c: "set_length (child_at ?tp) < 6" by (simp add: child_at_def cur_index_def two_leaves_def leaf_1_def)
  have d: "set_length (DecorationSet 5 0 (Arr []) []) = set_length (child_at ?tp)"
    by (simp add: child_at_def cur_index_def two_leaves_def leaf_1_def)
  have e: "iter_next [] 0 (6 - set_length (child_at ?tp)) [past_child ?tp]
       = Inr (Some (LocalSet 5 (the_array [] (local leaf_2)) (Some 0) 0),
              [IteratedSet 5 leaf_2 0, IteratedSet 10 two_leaves 2])"
    by code_simp
  have f: "with_child ?tp (DecorationSet 5 0 (Arr []) [])
      = IteratedSet 0 (DecorationSet 10 2 (Arr []) [DecorationSet 5 0 (Arr []) [], leaf_2]) (- 1)"
    by (simp add: with_child_def replace_child_def two_leaves_def cur_index_def)
  note t = next_bypasses_shorter_child[OF a b, of 6 0 "[]"]
  from t c have "iter_next [] 0 6 [?tp] = iter_next [] 0 (6 - set_length (child_at ?tp)) [past_child ?tp]"
    by blast
  then have 1: "iter_next [] 0 6 [?tp] = Inr (Some (LocalSet 5 (the_array [] (local leaf_2)) (Some 0) 0),
              [IteratedSet 5 leaf_2 0, IteratedSet 10 two_leaves 2])"
    by (simp only: e)
  from t c d have "next_calls [] 0 (6 # [0, 0]) [with_child ?tp (DecorationSet 5 0 (Arr []) [])]
      = next_calls [] 0 (6 # [0, 0]) [?tp]"
    by blast
  then have 2: "next_calls [] 0 [6, 0, 0] [IteratedSet 0 (DecorationSet 10 2 (Arr []) [DecorationSet 5 0 (Arr []) [], leaf_2]) (- 1)]
       = next_calls [] 0 [6, 0, 0] [?tp]"
    by (simp only: f)
  have 3: "cur_index ?tp < int (length (children two_leaves))" using b by simp
  have 4: "set_length leaf_1 < 6" by (simp add: leaf_1_def)
  from a 1 2 3 4 show ?thesis by blast
qed

section \<open>Building a set from no decoration\<close>

text \<open>
  \<open>DecorationSet.of\<close> applied to an empty array makes no call of \<open>update\<close> and
  returns \<open>DecorationSet.empty\<close>, whatever \<open>noDecorations\<close> holds, and leaves
  \<open>noDecorations\<close> as it is.
\<close>

lemma of_no_decorations: "of_decorations n nd (Many []) = Some (Inr (nd, empty))"
  by simp

text \<open>
  C10 says that \<open>DecorationSet.of\<close> applied to an empty array returns
  \<open>DecorationSet.empty\<close>, which has length 0, size 0, no local decorations and no
  children. The \<open>local\<close> of \<open>DecorationSet.empty\<close> is the array \<open>noDecorations\<close>.
  It is empty when the module is loaded, and then the set returned has no local
  decoration. But \<open>rebalanceChildren\<close> can write to that array: after the range that
  was local to \<open>big_child\<close> has been put there by the update of \<open>uneven_set\<close>,
  \<open>DecorationSet.of\<close> still returns \<open>DecorationSet.empty\<close>, of length 0 and size 0
  and without children, and its \<open>local\<close> holds that range, which \<open>collect\<close>
  hands out.
\<close>

theorem of_empty_array_holds_stray_range:
  "of_decorations 10 [] (Many []) = Some (Inr ([], empty))
   \<and> the_array [] (local empty) = []
   \<and> update 10 [] uneven_set (Arr [point_at 16]) None None None
       = Some (Inr ([range_at 410 430], uneven_updated))
   \<and> of_decorations 10 [range_at 410 430] (Many []) = Some (Inr ([range_at 410 430], empty))
   \<and> set_length empty = 0 \<and> set_size empty = 0 \<and> children empty = []
   \<and> local empty = NoDecorations
   \<and> the_array [range_at 410 430] (local empty) = [range_at 410 430]
   \<and> collect [range_at 410 430] empty 0 = [range_at 410 430]
   \<and> \<not> sizes_ok [range_at 410 430] empty"
  using update_uneven_set of_no_decorations
  by (simp add: empty_def move_def)

section \<open>Collapsing a node moves the decorations of its later children\<close>

text \<open>
  C5 says that in the result of every operation each local decoration lies in
  \<open>[0, length]\<close> of its node. \<open>collapseSet\<close> calls \<open>child.collect(local, -off)\<close> for
  the child that starts at \<open>off\<close>, where \<open>collect\<close> adds its second argument to the
  positions: the decorations of every child but the first move down by twice the child's
  start. The set that \<open>DecorationSet.of\<close> builds from the points at 0, ..., 32 satisfies
  the invariants; \<open>update\<close> with a filter that drops the point at 0 collapses it to a
  leaf in which the point at 32 stands at \<open>-32\<close>.
\<close>

theorem collapse_moves_point_below_zero:
  "of_decorations 10 [] (Many (map point_at [0..32])) = Some (Inr ([], points_0_32))
   \<and> invariants [] points_0_32
   \<and> update 10 [] points_0_32 NoDecorations (Some drop_all) (Some 0) (Some 0)
       = Some (Inr ([], points_filtered))
   \<and> \<not> locals_in_bounds [] points_filtered
   \<and> point_at (- 32) \<in> set (the_array [] (local points_filtered))"
  using of_points_0_32 invariants_points_0_32 update_points_0_32
  by (simp, code_simp)

text \<open>
  C6 says that \<open>update([], f, filterFrom, filterTo)\<close> keeps every decoration whose
  interval does not meet the window. In the same call, with the window \<open>[0, 0]\<close>, the
  point at 32 is outside the window; the result holds the points at 1, ..., 31 and a point
  at \<open>-32\<close>, and no point at 32.
\<close>

theorem filter_update_moves_point_outside_window:
  "collect [] points_0_32 0 = map point_at [0..32]
   \<and> \<not> (0 \<le> dto (point_at 32) \<and> dfrom (point_at 32) \<le> 0)
   \<and> update 10 [] points_0_32 NoDecorations (Some drop_all) (Some 0) (Some 0)
       = Some (Inr ([], points_filtered))
   \<and> collect [] points_filtered 0 = map point_at [1..31] @ [point_at (- 32)]
   \<and> point_at 32 \<notin> set (collect [] points_filtered 0)"
  using update_points_0_32
  by (simp, code_simp)

section \<open>Rebalancing loses decorations\<close>

text \<open>
  C4 says that in the result of every operation \<open>size\<close> is the number of local
  decorations plus the sizes of the children, at every node. \<open>rebalanceChildren\<close> rebinds
  its parameter \<open>local\<close> to the shared array \<open>noDecorations\<close> when the caller's array
  becomes empty, and a child it unwraps later in the same call puts its local decorations
  there. Adding the point at 16 to \<open>uneven_set\<close> wraps the first two children, which
  takes the only local decoration, and then unwraps \<open>big_child\<close>: the result has size
  100, no local decoration and children of sizes 4, 31, 32 and 32, and \<open>noDecorations\<close>
  holds the range that was local to \<open>big_child\<close>.
\<close>

theorem rebalance_breaks_size:
  "invariants [] uneven_set
   \<and> update 10 [] uneven_set (Arr [point_at 16]) None None None
       = Some (Inr ([range_at 410 430], uneven_updated))
   \<and> set_size uneven_updated = 100
   \<and> int (length (the_array [range_at 410 430] (local uneven_updated)))
       + sum_list (map set_size (children uneven_updated)) = 99
   \<and> \<not> sizes_ok [range_at 410 430] uneven_updated"
  using invariants_uneven_set update_uneven_set
  by (simp, code_simp)

section \<open>A large array loses a range\<close>

text \<open>
  C3 says that \<open>DecorationSet.empty.update(xs)\<close> holds exactly the decorations of
  \<open>xs\<close>, for every array \<open>xs\<close> of decorations with \<open>0 \<le> from \<le> to\<close>.
  When \<open>rebalanceChildren\<close> has joined the children from \<open>i\<close> up to \<open>joinTo\<close> into
  a wrapper node, the wrapper stands at index \<open>i\<close> and the next child at \<open>i + 1\<close>, but
  the loop goes on at \<open>i = joinTo\<close>: it passes over \<open>joinTo - i - 1\<close> children
  without adding their lengths to \<open>off\<close>. With fewer than 1056 decorations no wrapper
  is made. With the 1056 decorations of \<open>big\<close> the first wrapper joins the first two
  children, the third is passed over, and the next wrapper, which starts at 99, is made
  with \<open>off = 66\<close>: it takes the range from 66 to 101 out of \<open>local\<close> as its own range
  from 0 to 35. The set returned has size 1056, and \<open>collect\<close> hands out a range from 99
  to 134, which is not in \<open>big\<close>, and no range from 66 to 101.
\<close>

theorem update_of_big_array_moves_range:
  "list_all (\<lambda>d. 0 \<le> dfrom d \<and> dfrom d \<le> dto d) big
   \<and> length big = 1056
   \<and> update 40 [] empty (Arr big) None None None = Some (Inr ([], big_updated))
   \<and> count_list big (range_at 66 101) = 1
   \<and> count_list (collect [] big_updated 0) (range_at 66 101) = 0
   \<and> count_list big (range_at 99 134) = 0
   \<and> count_list (collect [] big_updated 0) (range_at 99 134) = 1
   \<and> mset (collect [] big_updated 0) \<noteq> mset big"
proof -
  have "mset (collect [] big_updated 0) \<noteq> mset big"
  proof
    assume "mset (collect [] big_updated 0) = mset big"
    then have "count (mset (collect [] big_updated 0)) (range_at 66 101)
        = count (mset big) (range_at 66 101)"
      by simp
    then show False using count_big(1) count_big_updated(1) by (simp add: count_mset)
  qed
  then show ?thesis
    using big_in_range length_big update_big count_big count_big_updated by simp
qed

end
